theory Spec2Isabelle
  imports Main "HOL-Library.Multiset" "HOL-Library.AList"
begin

section \<open>JavaScript values\<close>

text \<open>
  The values the store and the reducer composer handle. Objects carry a tag (their
  identity): the comparison \<^verbatim>\<open>===\<close> on two objects compares the tags, never the
  contents. \<open>VObj\<close> is a plain object (an object literal), \<open>VArr\<close> an array, \<open>VInst\<close>
  any other object (a class instance, a Date, a Promise), \<open>VFun\<close> a function, named by
  a number; what a function does when called is given by an environment (below).
  Numbers are the integer-valued ones.
\<close>

datatype val =
    VUndefined
  | VNull
  | VBool bool
  | VNum int
  | VStr string
  | VFun nat
  | VObj nat "(string \<times> val) list"
  | VArr nat "val list"
  | VInst nat

primrec typeof :: "val \<Rightarrow> string" where
  "typeof VUndefined = ''undefined''"
| "typeof VNull = ''object''"
| "typeof (VBool b) = ''boolean''"
| "typeof (VNum n) = ''number''"
| "typeof (VStr s) = ''string''"
| "typeof (VFun f) = ''function''"
| "typeof (VObj r fs) = ''object''"
| "typeof (VArr r xs) = ''object''"
| "typeof (VInst r) = ''object''"

text \<open>\<^verbatim>\<open>a === b\<close>: by value on primitives, by identity on objects and functions.\<close>

primrec strict_eq :: "val \<Rightarrow> val \<Rightarrow> bool" where
  "strict_eq VUndefined b = (case b of VUndefined \<Rightarrow> True | _ \<Rightarrow> False)"
| "strict_eq VNull b = (case b of VNull \<Rightarrow> True | _ \<Rightarrow> False)"
| "strict_eq (VBool x) b = (case b of VBool y \<Rightarrow> x = y | _ \<Rightarrow> False)"
| "strict_eq (VNum x) b = (case b of VNum y \<Rightarrow> x = y | _ \<Rightarrow> False)"
| "strict_eq (VStr x) b = (case b of VStr y \<Rightarrow> x = y | _ \<Rightarrow> False)"
| "strict_eq (VFun x) b = (case b of VFun y \<Rightarrow> x = y | _ \<Rightarrow> False)"
| "strict_eq (VObj x fs) b = (case b of VObj y gs \<Rightarrow> x = y | _ \<Rightarrow> False)"
| "strict_eq (VArr x xs) b = (case b of VArr y ys \<Rightarrow> x = y | _ \<Rightarrow> False)"
| "strict_eq (VInst x) b = (case b of VInst y \<Rightarrow> x = y | _ \<Rightarrow> False)"

text \<open>
  \<^verbatim>\<open>isPlainObject\<close> is imported from lodash: true of objects created by an object
  literal or by \<^verbatim>\<open>Object\<close>, false of every primitive, function, array and instance of
  a class.
\<close>

definition isPlainObject :: "val \<Rightarrow> bool" where
  "isPlainObject v = (case v of VObj r fs \<Rightarrow> True | _ \<Rightarrow> False)"

text \<open>The exceptions of the two modules, one constructor for each \<^verbatim>\<open>throw\<close>.\<close>

datatype error =
    EnhancerNotFunction
      \<comment> \<open>\<^verbatim>\<open>Expected the enhancer to be a function.\<close>\<close>
  | ReducerNotFunction
      \<comment> \<open>\<^verbatim>\<open>Expected the reducer to be a function.\<close>\<close>
  | ListenerNotFunction
      \<comment> \<open>\<^verbatim>\<open>Expected listener to be a function.\<close>\<close>
  | ActionNotPlainObject
      \<comment> \<open>\<^verbatim>\<open>Actions must be plain objects. Use custom middleware for async actions.\<close>\<close>
  | ActionTypeUndefined
      \<comment> \<open>\<^verbatim>\<open>Actions may not have an undefined "type" property. Have you misspelled a constant?\<close>\<close>
  | ReducersMayNotDispatch
      \<comment> \<open>\<^verbatim>\<open>Reducers may not dispatch actions.\<close>\<close>
  | NextReducerNotFunction
      \<comment> \<open>\<^verbatim>\<open>Expected the nextReducer to be a function.\<close>\<close>
  | SanityInit string
      \<comment> \<open>\<^verbatim>\<open>Reducer "key" returned undefined during initialization. ...\<close>\<close>
  | SanityProbe string
      \<comment> \<open>\<^verbatim>\<open>Reducer "key" returned undefined when probed with a random type. ...\<close>\<close>
  | UndefinedSliceState string string
      \<comment> \<open>\<^verbatim>\<open>Given action ${actionName}, reducer "${key}" returned undefined. ...\<close>, with the
          key and the name of the action\<close>
  | TypeError
      \<comment> \<open>raised by the language: a property of \<^verbatim>\<open>undefined\<close> or \<^verbatim>\<open>null\<close> is read, or a
          value that is no function is called\<close>
  | Thrown val
      \<comment> \<open>a value thrown by a caller's function\<close>

text \<open>
  \<^verbatim>\<open>action.type\<close>, as \<^verbatim>\<open>dispatch\<close> and the reducers of the examples read it: \<open>getProp\<close> is
  used with the key \<^verbatim>\<open>type\<close> only. A plain object has the property when it owns it
  (\<^verbatim>\<open>Object.prototype\<close> has no property \<^verbatim>\<open>type\<close>), and reading a property of \<^verbatim>\<open>undefined\<close>
  or \<^verbatim>\<open>null\<close> raises \<open>TypeError\<close>. A value that is no plain object is read as having no
  property \<^verbatim>\<open>type\<close>: \<^verbatim>\<open>dispatch\<close> has refused it before it reads the property. The read
  \<^verbatim>\<open>state[key]\<close> of the reducer composer, where the key is any string, is \<open>getMember\<close>
  below.
\<close>

definition getProp :: "val \<Rightarrow> string \<Rightarrow> error + val" where
  "getProp v k =
     (case v of
        VUndefined \<Rightarrow> Inl TypeError
      | VNull \<Rightarrow> Inl TypeError
      | VObj r fs \<Rightarrow> Inr (case map_of fs k of Some x \<Rightarrow> x | None \<Rightarrow> VUndefined)
      | _ \<Rightarrow> Inr VUndefined)"

definition INIT :: string where
  "INIT = ''@@redux/INIT''"

text \<open>
  The object literal \<^verbatim>\<open>{ type: ActionTypes.INIT }\<close>. Tag 0 is kept for it; no operation
  of the store compares actions.
\<close>

definition initAction :: val where
  "initAction = VObj 0 [(''type'', VStr INIT)]"

section \<open>The store\<close>

text \<open>
  The variables closed over by \<^verbatim>\<open>createStore\<close>. \<open>currentListeners\<close> and
  \<open>nextListeners\<close> are references to arrays: \<open>arrays\<close> is the heap the arrays live in
  and a reference is an index into it, so that two variables can hold the same array.
  Each call of \<^verbatim>\<open>subscribe\<close> creates a closure \<^verbatim>\<open>unsubscribe\<close> with its own variable
  \<^verbatim>\<open>isSubscribed\<close> and its \<^verbatim>\<open>listener\<close>: \<open>subscriptions\<close> holds one pair for each
  closure, in creation order, and the closure is named by its index. The references
  of a store that \<^verbatim>\<open>createStore\<close> has returned are always arrays of the heap
  (\<open>store_inv\<close> below).
\<close>

record store =
  currentReducer :: val
  currentState :: val
  currentListeners :: nat
  nextListeners :: nat
  isDispatching :: bool
  arrays :: "val list list"
  subscriptions :: "(val \<times> bool) list"

definition ensureCanMutateNextListeners :: "store \<Rightarrow> store" where
  "ensureCanMutateNextListeners w =
     (if nextListeners w = currentListeners w
      then w\<lparr>nextListeners := length (arrays w),
             arrays := arrays w @ [arrays w ! currentListeners w]\<rparr>
      else w)"

definition getState :: "store \<Rightarrow> val" where
  "getState w = currentState w"

text \<open>\<^verbatim>\<open>Array.prototype.indexOf\<close>: the first index holding the value, or -1.\<close>

fun indexOfFrom :: "val list \<Rightarrow> val \<Rightarrow> int \<Rightarrow> int" where
  "indexOfFrom [] v i = - 1"
| "indexOfFrom (x # xs) v i = (if strict_eq x v then i else indexOfFrom xs v (i + 1))"

definition indexOf :: "val list \<Rightarrow> val \<Rightarrow> int" where
  "indexOf xs v = indexOfFrom xs v 0"

text \<open>
  \<^verbatim>\<open>Array.prototype.splice(start, deleteCount)\<close> with no items to insert: a negative
  start counts from the end.
\<close>

definition splice :: "'a list \<Rightarrow> int \<Rightarrow> int \<Rightarrow> 'a list" where
  "splice xs start deleteCount =
     (let len = int (length xs);
          actualStart = (if start < 0 then max (len + start) 0 else min start len);
          actualDeleteCount = min (max deleteCount 0) (len - actualStart)
      in take (nat actualStart) xs @ drop (nat (actualStart + actualDeleteCount)) xs)"

text \<open>\<^verbatim>\<open>subscribe\<close> returns the closure it creates: its index in \<open>subscriptions\<close>.\<close>

definition subscribe :: "val \<Rightarrow> store \<Rightarrow> (error + nat) \<times> store" where
  "subscribe listener w =
     (if typeof listener \<noteq> ''function'' then (Inl ListenerNotFunction, w)
      else
        let w1 = w\<lparr>subscriptions := subscriptions w @ [(listener, True)]\<rparr>;
            w2 = ensureCanMutateNextListeners w1;
            w3 = w2\<lparr>arrays := (arrays w2)
                    [nextListeners w2 := arrays w2 ! nextListeners w2 @ [listener]]\<rparr>
        in (Inr (length (subscriptions w)), w3))"

text \<open>A call of the closure \<open>h\<close> that an earlier \<^verbatim>\<open>subscribe\<close> returned.\<close>

definition unsubscribe :: "nat \<Rightarrow> store \<Rightarrow> store" where
  "unsubscribe h w =
     (case subscriptions w ! h of
        (listener, isSubscribed) \<Rightarrow>
          if \<not> isSubscribed then w
          else
            let w1 = w\<lparr>subscriptions := (subscriptions w)[h := (listener, False)]\<rparr>;
                w2 = ensureCanMutateNextListeners w1;
                index = indexOf (arrays w2 ! nextListeners w2) listener
            in w2\<lparr>arrays := (arrays w2)
                    [nextListeners w2 := splice (arrays w2 ! nextListeners w2) index 1]\<rparr>)"

subsection \<open>The functions of the caller\<close>

text \<open>
  Reducers and listeners are functions of the caller. They can call the store while
  they run, so their bodies are programs over the store's interface: each constructor
  is one call, and the continuation receives what the call returned. \<open>TryCatch p k\<close>
  runs \<open>p\<close> inside \<^verbatim>\<open>try\<close> and hands \<open>k\<close> the value returned or the exception caught.
  An environment gives the body of each function, for the arguments of the call.
  What a function computes between two calls of the store is in the continuations.
  \<open>Unsubscribe h\<close> calls the closure number \<open>h\<close>; when no such closure has been created
  yet, the variable that would hold it is still \<^verbatim>\<open>undefined\<close> and the call raises
  \<open>TypeError\<close>. The function \<^verbatim>\<open>observable\<close> of the store is not modelled.
\<close>

datatype prog =
    Return val
  | Throw error
  | GetState "val \<Rightarrow> prog"
  | Subscribe val "nat \<Rightarrow> prog"
  | Unsubscribe nat prog
  | Dispatch val "val \<Rightarrow> prog"
  | ReplaceReducer val prog
  | TryCatch prog "error + val \<Rightarrow> prog"

type_synonym env = "nat \<Rightarrow> val list \<Rightarrow> prog"

text \<open>
  How a function of the caller is called: the function, its arguments and the store
  give the value returned or the exception thrown, and the store afterwards; \<open>None\<close>
  is a call that does not return within the bound on nested calls (below).
\<close>

type_synonym invoke = "val \<Rightarrow> val list \<Rightarrow> store \<Rightarrow> ((error + val) \<times> store) option"

subsection \<open>dispatch\<close>

text \<open>
  \<open>notify call m listeners i\<close> is the loop
  \<^verbatim>\<open>for (; i < listeners.length; i++) listeners[i]()\<close>. \<open>listeners\<close> is a reference: the
  array is read again at every step. \<open>m\<close> bounds the steps still to run. Beside the
  outcome and the store, \<open>notify\<close> and \<open>dispatch\<close> return the listeners that this very
  loop has called, in order (a record of the run, not a value of the program).
\<close>

primrec notify :: "invoke \<Rightarrow> nat \<Rightarrow> nat \<Rightarrow> nat \<Rightarrow> store \<Rightarrow> ((error + unit) \<times> store \<times> val list) option" where
  "notify call 0 listeners i w =
     (if i < length (arrays w ! listeners) then None else Some (Inr (), w, []))"
| "notify call (Suc m) listeners i w =
     (if i < length (arrays w ! listeners) then
        (case call (arrays w ! listeners ! i) [] w of
           None \<Rightarrow> None
         | Some (Inl e, w') \<Rightarrow> Some (Inl e, w', [arrays w ! listeners ! i])
         | Some (Inr v, w') \<Rightarrow>
             (case notify call m listeners (i + 1) w' of
                None \<Rightarrow> None
              | Some (r, w'', called) \<Rightarrow> Some (r, w'', arrays w ! listeners ! i # called)))
      else Some (Inr (), w, []))"

text \<open>
  The end of \<^verbatim>\<open>dispatch\<close>, from \<^verbatim>\<open>var listeners = currentListeners = nextListeners\<close> on.
\<close>

definition notifyListeners :: "invoke \<Rightarrow> nat \<Rightarrow> val \<Rightarrow> store \<Rightarrow> ((error + val) \<times> store \<times> val list) option" where
  "notifyListeners call m action w =
     (let listeners = nextListeners w;
          w' = w\<lparr>currentListeners := listeners\<rparr>
      in case notify call m listeners 0 w' of
           None \<Rightarrow> None
         | Some (Inl e, w'', called) \<Rightarrow> Some (Inl e, w'', called)
         | Some (Inr u, w'', called) \<Rightarrow> Some (Inr action, w'', called))"

definition dispatch :: "invoke \<Rightarrow> nat \<Rightarrow> val \<Rightarrow> store \<Rightarrow> ((error + val) \<times> store \<times> val list) option" where
  "dispatch call m action w =
     (if \<not> isPlainObject action then Some (Inl ActionNotPlainObject, w, [])
      else
        (case getProp action ''type'' of
           Inl e \<Rightarrow> Some (Inl e, w, [])
         | Inr t \<Rightarrow>
             if typeof t = ''undefined'' then Some (Inl ActionTypeUndefined, w, [])
             else if isDispatching w then Some (Inl ReducersMayNotDispatch, w, [])
             else
               (case call (currentReducer w) [currentState w, action]
                       (w\<lparr>isDispatching := True\<rparr>) of
                  None \<Rightarrow> None
                | Some (Inl e, w1) \<Rightarrow> Some (Inl e, w1\<lparr>isDispatching := False\<rparr>, [])
                | Some (Inr s, w1) \<Rightarrow>
                    notifyListeners call m action
                      (w1\<lparr>currentState := s, isDispatching := False\<rparr>))))"

definition replaceReducer :: "invoke \<Rightarrow> nat \<Rightarrow> val \<Rightarrow> store \<Rightarrow> ((error + val) \<times> store) option" where
  "replaceReducer call m nextReducer w =
     (if typeof nextReducer \<noteq> ''function'' then Some (Inl NextReducerNotFunction, w)
      else
        (case dispatch call m initAction (w\<lparr>currentReducer := nextReducer\<rparr>) of
           None \<Rightarrow> None
         | Some (Inl e, w', called) \<Rightarrow> Some (Inl e, w')
         | Some (Inr v, w', called) \<Rightarrow> Some (Inr VUndefined, w')))"

subsection \<open>Running the functions of the caller\<close>

text \<open>
  \<open>exec call m p\<close> runs the body \<open>p\<close>: each constructor calls the store, and the
  functions that the store calls in turn are run by \<open>call\<close>.
\<close>

primrec exec :: "invoke \<Rightarrow> nat \<Rightarrow> prog \<Rightarrow> store \<Rightarrow> ((error + val) \<times> store) option" where
  "exec call m (Return v) w = Some (Inr v, w)"
| "exec call m (Throw e) w = Some (Inl e, w)"
| "exec call m (GetState k) w = exec call m (k (getState w)) w"
| "exec call m (Subscribe listener k) w =
     (case subscribe listener w of
        (Inl e, w') \<Rightarrow> Some (Inl e, w')
      | (Inr h, w') \<Rightarrow> exec call m (k h) w')"
| "exec call m (Unsubscribe h p) w =
     (if h < length (subscriptions w) then exec call m p (unsubscribe h w)
      else Some (Inl TypeError, w))"
| "exec call m (Dispatch action k) w =
     (case dispatch call m action w of
        None \<Rightarrow> None
      | Some (Inl e, w', called) \<Rightarrow> Some (Inl e, w')
      | Some (Inr v, w', called) \<Rightarrow> exec call m (k v) w')"
| "exec call m (ReplaceReducer nextReducer p) w =
     (case replaceReducer call m nextReducer w of
        None \<Rightarrow> None
      | Some (Inl e, w') \<Rightarrow> Some (Inl e, w')
      | Some (Inr v, w') \<Rightarrow> exec call m p w')"
| "exec call m (TryCatch p k) w =
     (case exec call m p w of
        None \<Rightarrow> None
      | Some (r, w') \<Rightarrow> exec call m (k r) w')"

text \<open>
  A listener or a reducer can dispatch, and the dispatch calls listeners: the calls
  nest without bound. \<open>callFunction n env\<close> calls a function with at most \<open>n\<close> calls
  nested inside one another; a run that needs more is \<open>None\<close>. A dispatch made by a body
  that runs at depth \<open>n\<close> gets \<open>n\<close> steps for its loop over the listeners.
\<close>

primrec callFunction :: "nat \<Rightarrow> env \<Rightarrow> invoke" where
  "callFunction 0 env f args w =
     (case f of VFun i \<Rightarrow> None | _ \<Rightarrow> Some (Inl TypeError, w))"
| "callFunction (Suc n) env f args w =
     (case f of
        VFun i \<Rightarrow> exec (callFunction n env) n (env i args) w
      | _ \<Rightarrow> Some (Inl TypeError, w))"

subsection \<open>createStore\<close>

text \<open>
  With an enhancer, \<^verbatim>\<open>createStore\<close> returns \<^verbatim>\<open>enhancer(createStore)(reducer, preloadedState)\<close>:
  what that call does is the enhancer's business, and the model returns the call
  itself (\<open>Enhanced\<close>). Without one it returns the store, here the variables it
  closes over. The array literal \<^verbatim>\<open>[]\<close> is the first array of the heap, and both
  variables refer to it.
\<close>

datatype created = Store store | Enhanced val val val

definition createStore :: "invoke \<Rightarrow> nat \<Rightarrow> val \<Rightarrow> val \<Rightarrow> val \<Rightarrow> (error + created) option" where
  "createStore call m reducer preloadedState0 enhancer0 =
     (let swap = (typeof preloadedState0 = ''function'' \<and> typeof enhancer0 = ''undefined'');
          enhancer = (if swap then preloadedState0 else enhancer0);
          preloadedState = (if swap then VUndefined else preloadedState0)
      in
        if typeof enhancer \<noteq> ''undefined'' then
          (if typeof enhancer \<noteq> ''function'' then Some (Inl EnhancerNotFunction)
           else Some (Inr (Enhanced enhancer reducer preloadedState)))
        else if typeof reducer \<noteq> ''function'' then Some (Inl ReducerNotFunction)
        else
          (case dispatch call m initAction
                  \<lparr>currentReducer = reducer, currentState = preloadedState,
                   currentListeners = 0, nextListeners = 0, isDispatching = False,
                   arrays = [[]], subscriptions = []\<rparr> of
             None \<Rightarrow> None
           | Some (Inl e, w, called) \<Rightarrow> Some (Inl e)
           | Some (Inr v, w, called) \<Rightarrow> Some (Inr (Store w))))"

subsection \<open>Properties of stores and of the caller's functions\<close>

text \<open>An action that \<^verbatim>\<open>dispatch\<close> accepts: a plain object whose \<^verbatim>\<open>type\<close> is defined.\<close>

definition validAction :: "val \<Rightarrow> bool" where
  "validAction a \<longleftrightarrow>
     isPlainObject a \<and>
     (case getProp a ''type'' of Inl e \<Rightarrow> False | Inr t \<Rightarrow> typeof t \<noteq> ''undefined'')"

text \<open>The listeners registered now: the array \<open>nextListeners\<close> refers to.\<close>

definition registered :: "store \<Rightarrow> val list" where
  "registered w = arrays w ! nextListeners w"

text \<open>
  What holds of every store that \<^verbatim>\<open>createStore\<close> returns, and after every operation
  on it: both references are arrays of the heap, the registered listeners are
  functions, and each of them stands in the array once for each closure
  \<^verbatim>\<open>unsubscribe\<close> of it whose \<^verbatim>\<open>isSubscribed\<close> is still true.
\<close>

definition store_inv :: "store \<Rightarrow> bool" where
  "store_inv w \<longleftrightarrow>
     currentListeners w < length (arrays w) \<and>
     nextListeners w < length (arrays w) \<and>
     list_all (\<lambda>l. typeof l = ''function'') (registered w) \<and>
     mset (registered w) = mset (map fst (filter snd (subscriptions w)))"

text \<open>
  An array of the heap that no \<^verbatim>\<open>subscribe\<close> or \<^verbatim>\<open>unsubscribe\<close> will write to: it is not
  the array of \<open>nextListeners\<close>, or it is the array of both variables (and then the
  next write copies it first).
\<close>

definition frozen :: "store \<Rightarrow> nat \<Rightarrow> bool" where
  "frozen w a \<longleftrightarrow> a < length (arrays w) \<and> (nextListeners w = a \<longrightarrow> currentListeners w = a)"

text \<open>
  \<open>evolves w w'\<close>: from \<open>w\<close> to \<open>w'\<close> the frozen arrays have stayed frozen and
  unchanged, and the closures \<^verbatim>\<open>unsubscribe\<close> of \<open>w\<close> are still there, with the same
  listener, none of them subscribed again.
\<close>

definition evolves :: "store \<Rightarrow> store \<Rightarrow> bool" where
  "evolves w w' \<longleftrightarrow>
     (\<forall>a. frozen w a \<longrightarrow> frozen w' a \<and> arrays w' ! a = arrays w ! a) \<and>
     length (subscriptions w) \<le> length (subscriptions w') \<and>
     (\<forall>h<length (subscriptions w).
        fst (subscriptions w' ! h) = fst (subscriptions w ! h) \<and>
        (snd (subscriptions w' ! h) \<longrightarrow> snd (subscriptions w ! h)))"

text \<open>A body that never calls \<^verbatim>\<open>dispatch\<close> or \<^verbatim>\<open>replaceReducer\<close>.\<close>

primrec noDispatch :: "prog \<Rightarrow> bool" where
  "noDispatch (Return v) = True"
| "noDispatch (Throw e) = True"
| "noDispatch (GetState k) = (\<forall>v. noDispatch (k v))"
| "noDispatch (Subscribe listener k) = (\<forall>h. noDispatch (k h))"
| "noDispatch (Unsubscribe h p) = noDispatch p"
| "noDispatch (Dispatch action k) = False"
| "noDispatch (ReplaceReducer nextReducer p) = False"
| "noDispatch (TryCatch p k) = (noDispatch p \<and> (\<forall>r. noDispatch (k r)))"

text \<open>The body \<open>p\<close> with the value \<open>s\<close> in place of every call of \<^verbatim>\<open>getState\<close>.\<close>

primrec withState :: "val \<Rightarrow> prog \<Rightarrow> prog" where
  "withState s (Return v) = Return v"
| "withState s (Throw e) = Throw e"
| "withState s (GetState k) = withState s (k s)"
| "withState s (Subscribe listener k) = Subscribe listener (\<lambda>h. withState s (k h))"
| "withState s (Unsubscribe h p) = Unsubscribe h (withState s p)"
| "withState s (Dispatch action k) = Dispatch action (\<lambda>v. withState s (k v))"
| "withState s (ReplaceReducer nextReducer p) = ReplaceReducer nextReducer (withState s p)"
| "withState s (TryCatch p k) = TryCatch (withState s p) (\<lambda>r. withState s (k r))"

text \<open>A body that never calls \<^verbatim>\<open>subscribe\<close> or a closure \<^verbatim>\<open>unsubscribe\<close>.\<close>

primrec noSubscribe :: "prog \<Rightarrow> bool" where
  "noSubscribe (Return v) = True"
| "noSubscribe (Throw e) = True"
| "noSubscribe (GetState k) = (\<forall>v. noSubscribe (k v))"
| "noSubscribe (Subscribe listener k) = False"
| "noSubscribe (Unsubscribe h p) = False"
| "noSubscribe (Dispatch action k) = (\<forall>v. noSubscribe (k v))"
| "noSubscribe (ReplaceReducer nextReducer p) = noSubscribe p"
| "noSubscribe (TryCatch p k) = (noSubscribe p \<and> (\<forall>r. noSubscribe (k r)))"

section \<open>combineReducers\<close>

text \<open>
  The object passed to \<^verbatim>\<open>combineReducers\<close> is the list of its own properties, in the
  order of \<^verbatim>\<open>Object.keys\<close>, each key once. The slice reducers are functions of the
  previous slice and the action that return a value or throw; \<open>renv\<close> gives the
  function of each number.

  What the module takes from the platform it runs on is a parameter of the model:
  \<^item> \<open>production\<close>: \<^verbatim>\<open>process.env.NODE_ENV\<close> is \<^verbatim>\<open>'production'\<close>, so that the blocks under
    \<^verbatim>\<open>process.env.NODE_ENV !== 'production'\<close> are skipped.
  \<^item> \<open>inherited v k\<close>: the value of \<^verbatim>\<open>v[k]\<close> when \<open>k\<close> is no own property of a plain object
    \<open>v\<close>, or when \<open>v\<close> is no plain object: what \<open>v\<close> inherits from its prototypes (an
    object literal has \<^verbatim>\<open>constructor\<close>, \<^verbatim>\<open>toString\<close>, \<^verbatim>\<open>hasOwnProperty\<close> and more from
    \<^verbatim>\<open>Object.prototype\<close>) or has built in (\<^verbatim>\<open>length\<close> of a string), and \<^verbatim>\<open>undefined\<close> when
    there is no such property.
  \<^item> \<open>className v\<close>: the word that \<^verbatim>\<open>/\s([a-z|A-Z]+)/\<close> finds in
    \<^verbatim>\<open>({}).toString.call(v)\<close>, such as \<^verbatim>\<open>Array\<close> in \<^verbatim>\<open>[object Array]\<close>; \<open>None\<close> when it finds
    none (for an object whose \<^verbatim>\<open>Symbol.toStringTag\<close> is \<^verbatim>\<open>'1'\<close>, say).
  \<^item> \<open>typeText v\<close>: the string that \<^verbatim>\<open>`${v.toString()}`\<close> gives for a value \<open>v\<close> that is
    neither \<^verbatim>\<open>undefined\<close> nor \<^verbatim>\<open>null\<close> (a string is its own text), or the exception that
    the method \<^verbatim>\<open>toString\<close> of \<open>v\<close> raises.

  \<^verbatim>\<open>warning\<close> is imported from \<^verbatim>\<open>./utils/warning\<close>: it prints its message and returns.
  What is printed is not part of the model.
\<close>

record runtime =
  production :: bool
  inherited :: "val \<Rightarrow> string \<Rightarrow> val"
  className :: "val \<Rightarrow> string option"
  typeText :: "val \<Rightarrow> error + string"

type_synonym renv = "nat \<Rightarrow> val \<Rightarrow> val \<Rightarrow> error + val"

definition callReducer :: "renv \<Rightarrow> val \<Rightarrow> val \<Rightarrow> val \<Rightarrow> error + val" where
  "callReducer renv f s a = (case f of VFun i \<Rightarrow> renv i s a | _ \<Rightarrow> Inl TypeError)"

text \<open>
  \<^verbatim>\<open>v[key]\<close> for any key: the own property of a plain object first, then what the value
  inherits. Reading a property of \<^verbatim>\<open>undefined\<close> or \<^verbatim>\<open>null\<close> raises \<open>TypeError\<close>.
\<close>

definition getMember :: "runtime \<Rightarrow> val \<Rightarrow> string \<Rightarrow> error + val" where
  "getMember rt v key =
     (case v of
        VUndefined \<Rightarrow> Inl TypeError
      | VNull \<Rightarrow> Inl TypeError
      | VObj r fs \<Rightarrow> Inr (case map_of fs key of Some x \<Rightarrow> x | None \<Rightarrow> inherited rt v key)
      | _ \<Rightarrow> Inr (inherited rt v key))"

text \<open>
  \<^verbatim>\<open>reducers[key]\<close> where \<open>key\<close> is one of \<^verbatim>\<open>Object.keys(reducers)\<close>: an own property.
\<close>

definition lookup :: "(string \<times> val) list \<Rightarrow> string \<Rightarrow> val" where
  "lookup fs k = (case map_of fs k of Some v \<Rightarrow> v | None \<Rightarrow> VUndefined)"

text \<open>\<^verbatim>\<open>s.split('').join('.')\<close>\<close>

fun joinDots :: "string \<Rightarrow> string" where
  "joinDots [] = []"
| "joinDots [c] = [c]"
| "joinDots (c # cs) = c # CHR ''.'' # joinDots cs"

text \<open>
  The type of the second probe, from \<open>r\<close>, the string \<^verbatim>\<open>Math.random().toString(36)\<close>.
\<close>

definition probeType :: "string \<Rightarrow> string" where
  "probeType r = ''@@redux/PROBE_UNKNOWN_ACTION_'' @ joinDots (drop 7 r)"

definition probeAction :: "string \<Rightarrow> val" where
  "probeAction r = VObj 0 [(''type'', VStr (probeType r))]"

text \<open>
  \<^verbatim>\<open>assertReducerSanity\<close>. \<open>probeReducer\<close> is the body of the \<^verbatim>\<open>forEach\<close>, for one key:
  \<open>rnd key\<close> is the random string drawn while \<open>key\<close> is probed. \<open>sanityLoop\<close> is the
  \<^verbatim>\<open>forEach\<close> over the keys, which the first exception ends.
\<close>

definition probeReducer :: "renv \<Rightarrow> (string \<Rightarrow> string) \<Rightarrow> (string \<times> val) list \<Rightarrow> string \<Rightarrow> error + unit" where
  "probeReducer renv rnd reducers key =
     (let reducer = lookup reducers key in
      case callReducer renv reducer VUndefined initAction of
        Inl e \<Rightarrow> Inl e
      | Inr initialState \<Rightarrow>
          if typeof initialState = ''undefined'' then Inl (SanityInit key)
          else
            (case callReducer renv reducer VUndefined (probeAction (rnd key)) of
               Inl e \<Rightarrow> Inl e
             | Inr v \<Rightarrow>
                 if typeof v = ''undefined'' then Inl (SanityProbe key)
                 else Inr ()))"

fun sanityLoop :: "renv \<Rightarrow> (string \<Rightarrow> string) \<Rightarrow> (string \<times> val) list \<Rightarrow> string list \<Rightarrow> error + unit" where
  "sanityLoop renv rnd reducers [] = Inr ()"
| "sanityLoop renv rnd reducers (key # keys) =
     (case probeReducer renv rnd reducers key of
        Inl e \<Rightarrow> Inl e
      | Inr u \<Rightarrow> sanityLoop renv rnd reducers keys)"

definition assertReducerSanity :: "renv \<Rightarrow> (string \<Rightarrow> string) \<Rightarrow> (string \<times> val) list \<Rightarrow> error + unit" where
  "assertReducerSanity renv rnd reducers = sanityLoop renv rnd reducers (map fst reducers)"

text \<open>
  The first loop of \<^verbatim>\<open>combineReducers\<close>: the properties that are functions. For the key
  \<^verbatim>\<open>__proto__\<close> the assignment \<^verbatim>\<open>finalReducers[key] = reducers[key]\<close> sets the prototype of
  \<^verbatim>\<open>finalReducers\<close> and adds no property to it. The test of \<^verbatim>\<open>NODE_ENV\<close> in this loop guards
  a warning and nothing else.
\<close>

fun finalLoop :: "(string \<times> val) list \<Rightarrow> string list \<Rightarrow> (string \<times> val) list \<Rightarrow> (string \<times> val) list" where
  "finalLoop reducers [] finalReducers = finalReducers"
| "finalLoop reducers (key # keys) finalReducers =
     finalLoop reducers keys
       (if typeof (lookup reducers key) = ''function'' \<and> key \<noteq> ''__proto__''
        then AList.update key (lookup reducers key) finalReducers
        else finalReducers)"

text \<open>What the function \<^verbatim>\<open>combination\<close> closes over.\<close>

record combined =
  finalReducers :: "(string \<times> val) list"
  finalReducerKeys :: "string list"
  sanityError :: "error option"

definition combineReducers :: "renv \<Rightarrow> (string \<Rightarrow> string) \<Rightarrow> (string \<times> val) list \<Rightarrow> combined" where
  "combineReducers renv rnd reducers =
     (let reducerKeys = map fst reducers;
          finals = finalLoop reducers reducerKeys []
      in \<lparr>finalReducers = finals,
          finalReducerKeys = map fst finals,
          sanityError =
            (case assertReducerSanity renv rnd finals of
               Inl e \<Rightarrow> Some e
             | Inr u \<Rightarrow> None)\<rparr>)"

primrec truthy :: "val \<Rightarrow> bool" where
  "truthy VUndefined = False"
| "truthy VNull = False"
| "truthy (VBool b) = b"
| "truthy (VNum n) = (n \<noteq> 0)"
| "truthy (VStr s) = (s \<noteq> [])"
| "truthy (VFun f) = True"
| "truthy (VObj r fs) = True"
| "truthy (VArr r xs) = True"
| "truthy (VInst r) = True"

text \<open>
  The truth value of what \<^verbatim>\<open>catch\<close> has caught: an \<^verbatim>\<open>Error\<close> object is true, a value
  thrown by a slice reducer is as true as the value is.
\<close>

definition truthyError :: "error \<Rightarrow> bool" where
  "truthyError e = (case e of Thrown v \<Rightarrow> truthy v | _ \<Rightarrow> True)"

text \<open>
  \<^verbatim>\<open>getUnexpectedStateShapeWarningMessage(state, finalReducers, action, unexpectedKeyCache)\<close>,
  which \<^verbatim>\<open>combination\<close> calls unless \<open>production\<close>. The message it returns is printed and
  nothing more, and \<^verbatim>\<open>unexpectedKeyCache\<close> only chooses the keys the message names: the
  model keeps the exceptions that the call can raise.
  \<^item> \<^verbatim>\<open>action && action.type\<close> reads a property of a value that is neither \<^verbatim>\<open>undefined\<close>
    nor \<^verbatim>\<open>null\<close>, and raises nothing.
  \<^item> For a state that is no plain object, \<^verbatim>\<open>.match(...)[1]\<close> raises \<open>TypeError\<close> when the
    pattern finds no word.
  \<^item> For a plain object, the filter calls \<^verbatim>\<open>reducers.hasOwnProperty(key)\<close> once for each
    own key of the state, in order. When a slice is named \<^verbatim>\<open>hasOwnProperty\<close>, that
    property of \<^verbatim>\<open>finalReducers\<close> is its reducer, and the call is a call of the reducer
    with the key in place of the state and no action; otherwise it is the method of
    \<^verbatim>\<open>Object.prototype\<close>, which returns a boolean.
\<close>

definition ownKeys :: "val \<Rightarrow> string list" where
  "ownKeys v = (case v of VObj r fs \<Rightarrow> map fst fs | _ \<Rightarrow> [])"

fun hasOwnPropertyCalls :: "renv \<Rightarrow> (string \<times> val) list \<Rightarrow> string list \<Rightarrow> error + unit" where
  "hasOwnPropertyCalls renv reducers [] = Inr ()"
| "hasOwnPropertyCalls renv reducers (key # keys) =
     (case map_of reducers ''hasOwnProperty'' of
        None \<Rightarrow> hasOwnPropertyCalls renv reducers keys
      | Some f \<Rightarrow>
          (case callReducer renv f (VStr key) VUndefined of
             Inl e \<Rightarrow> Inl e
           | Inr b \<Rightarrow> hasOwnPropertyCalls renv reducers keys))"

definition getUnexpectedStateShapeWarningMessage :: "runtime \<Rightarrow> renv \<Rightarrow> val \<Rightarrow> (string \<times> val) list \<Rightarrow> error + unit" where
  "getUnexpectedStateShapeWarningMessage rt renv inputState reducers =
     (let reducerKeys = map fst reducers in
      if length reducerKeys = 0 then Inr ()
      else if \<not> isPlainObject inputState then
        (case className rt inputState of
           None \<Rightarrow> Inl TypeError
         | Some name \<Rightarrow> Inr ())
      else hasOwnPropertyCalls renv reducers (ownKeys inputState))"

text \<open>
  \<^verbatim>\<open>getUndefinedStateErrorMessage(key, action)\<close>: the result is the name of the action,
  which with the key makes the message. \<^verbatim>\<open>action && action.type\<close> is the action itself
  when the action is false.
\<close>

definition getUndefinedStateErrorMessage :: "runtime \<Rightarrow> string \<Rightarrow> val \<Rightarrow> error + string" where
  "getUndefinedStateErrorMessage rt key action =
     (let actionType =
            (if truthy action
             then (case getMember rt action ''type'' of Inl e \<Rightarrow> VUndefined | Inr t \<Rightarrow> t)
             else action)
      in if truthy actionType
         then (case typeText rt actionType of
                 Inl e \<Rightarrow> Inl e
               | Inr text \<Rightarrow> Inr (''\"'' @ text @ ''\"''))
         else Inr ''an action'')"

text \<open>The loop of \<^verbatim>\<open>combination\<close> over \<^verbatim>\<open>finalReducerKeys\<close>.\<close>

fun combineLoop :: "runtime \<Rightarrow> renv \<Rightarrow> (string \<times> val) list \<Rightarrow> string list \<Rightarrow> val \<Rightarrow> val \<Rightarrow> bool \<Rightarrow> (string \<times> val) list \<Rightarrow> error + bool \<times> (string \<times> val) list" where
  "combineLoop rt renv finals [] state action hasChanged nextState = Inr (hasChanged, nextState)"
| "combineLoop rt renv finals (key # keys) state action hasChanged nextState =
     (let reducer = lookup finals key in
      case getMember rt state key of
        Inl e \<Rightarrow> Inl e
      | Inr previousStateForKey \<Rightarrow>
          (case callReducer renv reducer previousStateForKey action of
             Inl e \<Rightarrow> Inl e
           | Inr nextStateForKey \<Rightarrow>
               if typeof nextStateForKey = ''undefined''
               then
                 (case getUndefinedStateErrorMessage rt key action of
                    Inl e \<Rightarrow> Inl e
                  | Inr actionName \<Rightarrow> Inl (UndefinedSliceState key actionName))
               else combineLoop rt renv finals keys state action
                      (hasChanged \<or> \<not> strict_eq nextStateForKey previousStateForKey)
                      (AList.update key nextStateForKey nextState)))"

text \<open>
  \<^verbatim>\<open>combination(state = {}, action)\<close>. \<open>state0\<close> is the argument of the call and \<open>state\<close>
  the parameter: the argument, or a new \<^verbatim>\<open>{}\<close> when the argument is \<^verbatim>\<open>undefined\<close>. \<open>ref\<close> is
  the first of the tags that no object has yet: the default \<^verbatim>\<open>{}\<close> and then the object
  \<^verbatim>\<open>nextState = {}\<close> take the next free tag when they are created, and the first tag
  still free is returned with the result.
\<close>

definition combination :: "runtime \<Rightarrow> renv \<Rightarrow> combined \<Rightarrow> val \<Rightarrow> val \<Rightarrow> nat \<Rightarrow> (error + val) \<times> nat" where
  "combination rt renv c state0 action ref =
     (let state = (if state0 = VUndefined then VObj ref [] else state0);
          ref1 = (if state0 = VUndefined then ref + 1 else ref);
          body =
            (case (if production rt then Inr ()
                   else getUnexpectedStateShapeWarningMessage rt renv state (finalReducers c)) of
               Inl e \<Rightarrow> (Inl e, ref1)
             | Inr warned \<Rightarrow>
                 (case combineLoop rt renv (finalReducers c) (finalReducerKeys c) state action
                         False [] of
                    Inl e \<Rightarrow> (Inl e, ref1 + 1)
                  | Inr (hasChanged, nextState) \<Rightarrow>
                      (Inr (if hasChanged then VObj ref1 nextState else state), ref1 + 1)))
      in
        case sanityError c of
          None \<Rightarrow> body
        | Some e \<Rightarrow> if truthyError e then (Inl e, ref1) else body)"

section \<open>Example programs\<close>

text \<open>The argument \<open>i\<close> of a call; a missing argument is \<^verbatim>\<open>undefined\<close>.\<close>

definition arg :: "val list \<Rightarrow> nat \<Rightarrow> val" where
  "arg args i = (if i < length args then args ! i else VUndefined)"

text \<open>
  \<^verbatim>\<open>function counterReducer(state = 0, action) { return action.type === 'INC' ? state + 1 : state }\<close>,
  on numbers.
\<close>

definition counterReducer :: "val list \<Rightarrow> prog" where
  "counterReducer args =
     (let state = (if arg args 0 = VUndefined then VNum 0 else arg args 0) in
      case getProp (arg args 1) ''type'' of
        Inl e \<Rightarrow> Throw e
      | Inr t \<Rightarrow>
          if strict_eq t (VStr ''INC'')
          then Return (case state of VNum k \<Rightarrow> VNum (k + 1) | _ \<Rightarrow> state)
          else Return state)"

definition incAction :: val where
  "incAction = VObj 1 [(''type'', VStr ''INC'')]"

text \<open>
  The functions of the examples.
  \<^item> 0: the counter reducer.
  \<^item> 1 and 8: two listeners that do nothing.
  \<^item> 2: a listener that subscribes listener 1.
  \<^item> 3: a listener that calls the closure \<^verbatim>\<open>unsubscribe\<close> number 2.
  \<^item> 4: the counter reducer, which first subscribes listener 1 when the action is \<^verbatim>\<open>INC\<close>.
  \<^item> 5: a reducer that dispatches inside \<^verbatim>\<open>try\<close>, and counts once the dispatch has been
    refused.
  \<^item> 6: the counter reducer, which throws when the action is \<^verbatim>\<open>INC\<close>.
  \<^item> 7: a reducer that returns ten more than what \<^verbatim>\<open>getState()\<close> gives it.
  \<^item> 9: a reducer that returns 100.
\<close>

definition demoEnv :: env where
  "demoEnv i args =
     (if i = 0 then counterReducer args
      else if i = 2 then Subscribe (VFun 1) (\<lambda>h. Return VUndefined)
      else if i = 3 then Unsubscribe 2 (Return VUndefined)
      else if i = 4 then
        (case getProp (arg args 1) ''type'' of
           Inl e \<Rightarrow> Throw e
         | Inr t \<Rightarrow>
             if strict_eq t (VStr ''INC'')
             then Subscribe (VFun 1) (\<lambda>h. counterReducer args)
             else counterReducer args)
      else if i = 5 then
        TryCatch (Dispatch incAction Return)
          (\<lambda>r. case r of
                 Inl e \<Rightarrow> if e = ReducersMayNotDispatch then counterReducer args else Throw e
               | Inr v \<Rightarrow> Return (VStr ''dispatched''))
      else if i = 6 then
        (case getProp (arg args 1) ''type'' of
           Inl e \<Rightarrow> Throw e
         | Inr t \<Rightarrow>
             if strict_eq t (VStr ''INC'')
             then Throw (Thrown (VStr ''boom''))
             else counterReducer args)
      else if i = 7 then
        GetState (\<lambda>s. Return (case s of VNum k \<Rightarrow> VNum (k + 10) | _ \<Rightarrow> VNum 10))
      else if i = 9 then Return (VNum 100)
      else Return VUndefined)"

text \<open>The store that \<^verbatim>\<open>createStore(counterReducer)\<close> returns.\<close>

definition counterStore :: store where
  "counterStore =
     \<lparr>currentReducer = VFun 0, currentState = VNum 0, currentListeners = 0,
      nextListeners = 0, isDispatching = False, arrays = [[]], subscriptions = []\<rparr>"

text \<open>That store once the listeners 2, 3 and 8 have been subscribed, in this order.\<close>

definition listenersStore :: store where
  "listenersStore =
     \<lparr>currentReducer = VFun 0, currentState = VNum 0, currentListeners = 0,
      nextListeners = 1, isDispatching = False,
      arrays = [[], [VFun 2, VFun 3, VFun 8]],
      subscriptions = [(VFun 2, True), (VFun 3, True), (VFun 8, True)]\<rparr>"

text \<open>\<open>listenersStore\<close> after \<^verbatim>\<open>dispatch({type: 'INC'})\<close>, and after a second one.\<close>

definition listenersStore1 :: store where
  "listenersStore1 =
     \<lparr>currentReducer = VFun 0, currentState = VNum 1, currentListeners = 1,
      nextListeners = 2, isDispatching = False,
      arrays = [[], [VFun 2, VFun 3, VFun 8], [VFun 2, VFun 3, VFun 1]],
      subscriptions = [(VFun 2, True), (VFun 3, True), (VFun 8, False), (VFun 1, True)]\<rparr>"

definition listenersStore2 :: store where
  "listenersStore2 =
     \<lparr>currentReducer = VFun 0, currentState = VNum 2, currentListeners = 2,
      nextListeners = 3, isDispatching = False,
      arrays = [[], [VFun 2, VFun 3, VFun 8], [VFun 2, VFun 3, VFun 1],
                [VFun 2, VFun 3, VFun 1, VFun 1]],
      subscriptions = [(VFun 2, True), (VFun 3, True), (VFun 8, False), (VFun 1, True),
                       (VFun 1, True)]\<rparr>"

text \<open>
  The store that \<^verbatim>\<open>createStore\<close> returns for reducer 4, and that store after
  \<^verbatim>\<open>dispatch({type: 'INC'})\<close>.
\<close>

definition subscribingStore :: store where
  "subscribingStore =
     \<lparr>currentReducer = VFun 4, currentState = VNum 0, currentListeners = 0,
      nextListeners = 0, isDispatching = False, arrays = [[]], subscriptions = []\<rparr>"

definition subscribingStore1 :: store where
  "subscribingStore1 =
     \<lparr>currentReducer = VFun 4, currentState = VNum 1, currentListeners = 1,
      nextListeners = 1, isDispatching = False, arrays = [[], [VFun 1]],
      subscriptions = [(VFun 1, True)]\<rparr>"

text \<open>
  The store of reducer 4 once the listeners 8, 3 and 1 have been subscribed, in this
  order: the closure \<^verbatim>\<open>unsubscribe\<close> number 2, the one that listener 3 calls, is that of
  listener 1. Then that store after \<^verbatim>\<open>dispatch({type: 'NOP'})\<close>, and after
  \<^verbatim>\<open>dispatch({type: 'INC'})\<close> next.
\<close>

definition resubscribingStore :: store where
  "resubscribingStore =
     \<lparr>currentReducer = VFun 4, currentState = VNum 0, currentListeners = 0,
      nextListeners = 1, isDispatching = False,
      arrays = [[], [VFun 8, VFun 3, VFun 1]],
      subscriptions = [(VFun 8, True), (VFun 3, True), (VFun 1, True)]\<rparr>"

definition resubscribingStore1 :: store where
  "resubscribingStore1 =
     \<lparr>currentReducer = VFun 4, currentState = VNum 0, currentListeners = 1,
      nextListeners = 2, isDispatching = False,
      arrays = [[], [VFun 8, VFun 3, VFun 1], [VFun 8, VFun 3]],
      subscriptions = [(VFun 8, True), (VFun 3, True), (VFun 1, False)]\<rparr>"

definition resubscribingStore2 :: store where
  "resubscribingStore2 =
     \<lparr>currentReducer = VFun 4, currentState = VNum 1, currentListeners = 2,
      nextListeners = 2, isDispatching = False,
      arrays = [[], [VFun 8, VFun 3, VFun 1], [VFun 8, VFun 3, VFun 1]],
      subscriptions = [(VFun 8, True), (VFun 3, True), (VFun 1, False), (VFun 1, True)]\<rparr>"

text \<open>The functions of the examples without reducer 5, the one that dispatches.\<close>

definition quietEnv :: env where
  "quietEnv i args = (if i = 5 then Return VUndefined else demoEnv i args)"

text \<open>
  Slice reducers for the examples: 0 is the counter, 1 is
  \<^verbatim>\<open>(s = false, a) => a.type === 'TOGGLE' ? !s : s\<close> on booleans, 2 returns \<^verbatim>\<open>undefined\<close>,
  3 is \<^verbatim>\<open>(s, a) => a.type === '@@redux/INIT' ? 0 : undefined\<close>, 4 throws, 5 is
  \<^verbatim>\<open>(s = 0, a) => a.type === 'INC' ? undefined : s\<close>, and 6 is
  \<^verbatim>\<open>(s, a) => { if (s === undefined) throw 0; return s }\<close>.
\<close>

definition demoRenv :: renv where
  "demoRenv i state action =
     (if i = 0 then
        (let s = (if state = VUndefined then VNum 0 else state) in
         case getProp action ''type'' of
           Inl e \<Rightarrow> Inl e
         | Inr t \<Rightarrow>
             if strict_eq t (VStr ''INC'')
             then Inr (case s of VNum k \<Rightarrow> VNum (k + 1) | _ \<Rightarrow> s)
             else Inr s)
      else if i = 1 then
        (let s = (if state = VUndefined then VBool False else state) in
         case getProp action ''type'' of
           Inl e \<Rightarrow> Inl e
         | Inr t \<Rightarrow>
             if strict_eq t (VStr ''TOGGLE'')
             then Inr (case s of VBool b \<Rightarrow> VBool (\<not> b) | _ \<Rightarrow> s)
             else Inr s)
      else if i = 3 then
        (case getProp action ''type'' of
           Inl e \<Rightarrow> Inl e
         | Inr t \<Rightarrow> if strict_eq t (VStr INIT) then Inr (VNum 0) else Inr VUndefined)
      else if i = 4 then Inl (Thrown (VStr ''boom''))
      else if i = 5 then
        (let s = (if state = VUndefined then VNum 0 else state) in
         case getProp action ''type'' of
           Inl e \<Rightarrow> Inl e
         | Inr t \<Rightarrow> if strict_eq t (VStr ''INC'') then Inr VUndefined else Inr s)
      else if i = 6 then (if state = VUndefined then Inl (Thrown (VNum 0)) else Inr state)
      else Inr VUndefined)"

definition demoRnd :: "string \<Rightarrow> string" where
  "demoRnd key = ''0.4fzyo82mvyr''"

text \<open>
  A platform for the examples, not in production mode: an object literal inherits
  \<^verbatim>\<open>constructor\<close> and \<^verbatim>\<open>hasOwnProperty\<close> (the functions 100 and 101).
\<close>

definition demoRuntime :: runtime where
  "demoRuntime =
     \<lparr>production = False,
      inherited = (\<lambda>v key. case v of
                     VObj r fs \<Rightarrow>
                       if key = ''constructor'' then VFun 100
                       else if key = ''hasOwnProperty'' then VFun 101
                       else VUndefined
                   | _ \<Rightarrow> VUndefined),
      className = (\<lambda>v. case v of VArr r xs \<Rightarrow> Some ''Array'' | VInst r \<Rightarrow> None | _ \<Rightarrow> Some ''Object''),
      typeText = (\<lambda>v. case v of VStr text \<Rightarrow> Inr text | _ \<Rightarrow> Inr ''[object Object]'')\<rparr>"

text \<open>
  \<^verbatim>\<open>{count: counter, label: 'x', flag: toggle}\<close>, then two objects with a reducer that
  fails a probe, in front of one that throws: \<^verbatim>\<open>broken\<close> fails the first probe and
  \<^verbatim>\<open>picky\<close> the second.
\<close>

definition demoReducers :: "(string \<times> val) list" where
  "demoReducers = [(''count'', VFun 0), (''label'', VStr ''x''), (''flag'', VFun 1)]"

definition brokenReducers :: "(string \<times> val) list" where
  "brokenReducers = [(''count'', VFun 0), (''broken'', VFun 2), (''thrower'', VFun 4)]"

definition pickyReducers :: "(string \<times> val) list" where
  "pickyReducers = [(''count'', VFun 0), (''picky'', VFun 3), (''thrower'', VFun 4)]"

definition demoState :: val where
  "demoState = VObj 20 [(''count'', VNum 1), (''flag'', VBool False)]"

definition nopAction :: val where
  "nopAction = VObj 3 [(''type'', VStr ''NOP'')]"

section \<open>How the store changes\<close>

lemma ensure_fields [simp]:
  "isDispatching (ensureCanMutateNextListeners w) = isDispatching w"
  "currentState (ensureCanMutateNextListeners w) = currentState w"
  "currentReducer (ensureCanMutateNextListeners w) = currentReducer w"
  "currentListeners (ensureCanMutateNextListeners w) = currentListeners w"
  "subscriptions (ensureCanMutateNextListeners w) = subscriptions w"
  by (simp_all add: ensureCanMutateNextListeners_def)

lemma subscribe_fields:
  "subscribe l w = (r, w') \<Longrightarrow>
     isDispatching w' = isDispatching w \<and> currentState w' = currentState w \<and>
     currentReducer w' = currentReducer w \<and> currentListeners w' = currentListeners w"
  by (auto simp: subscribe_def Let_def split: if_splits)

lemma unsubscribe_fields [simp]:
  "isDispatching (unsubscribe h w) = isDispatching w"
  "currentState (unsubscribe h w) = currentState w"
  "currentReducer (unsubscribe h w) = currentReducer w"
  "currentListeners (unsubscribe h w) = currentListeners w"
  by (simp_all add: unsubscribe_def Let_def split: prod.splits)

lemma dispatch_while_dispatching:
  "isDispatching w \<Longrightarrow> \<exists>e. dispatch call m a w = Some (Inl e, w, [])"
  by (simp add: dispatch_def split: sum.splits)

lemma exec_respects:
  assumes refl: "\<And>w. R w w"
    and trans: "\<And>a b c. R a b \<Longrightarrow> R b c \<Longrightarrow> R a c"
    and sub: "\<And>l w r w'. subscribe l w = (r, w') \<Longrightarrow> R w w'"
    and unsub: "\<And>h w. h < length (subscriptions w) \<Longrightarrow> R w (unsubscribe h w)"
    and disp: "\<And>a w r w' c. dispatch call m a w = Some (r, w', c) \<Longrightarrow> R w w'"
    and repl: "\<And>nr w r w'. replaceReducer call m nr w = Some (r, w') \<Longrightarrow> R w w'"
  shows "exec call m p w = Some (r, w') \<Longrightarrow> R w w'"
proof (induction p arbitrary: w r w')
  case (Return v)
  then show ?case using refl by simp
next
  case (Throw e)
  then show ?case using refl by simp
next
  case (GetState k)
  then show ?case using GetState.IH [OF rangeI] by simp
next
  case (Subscribe l k)
  obtain r1 w1 where s: "subscribe l w = (r1, w1)" by (cases "subscribe l w")
  show ?case
  proof (cases r1)
    case (Inl e)
    with s Subscribe.prems sub show ?thesis by auto
  next
    case (Inr h)
    with s Subscribe.prems have "exec call m (k h) w1 = Some (r, w')" by simp
    from Subscribe.IH [OF rangeI this] sub [OF s] show ?thesis by (rule trans [rotated])
  qed
next
  case (Unsubscribe h p)
  show ?case
  proof (cases "h < length (subscriptions w)")
    case True
    with Unsubscribe.prems have "exec call m p (unsubscribe h w) = Some (r, w')" by simp
    from trans [OF unsub [OF True] Unsubscribe.IH [OF this]] show ?thesis .
  next
    case False
    with Unsubscribe.prems refl show ?thesis by simp
  qed
next
  case (Dispatch a k)
  from Dispatch.prems obtain r1 w1 c where d: "dispatch call m a w = Some (r1, w1, c)"
    by (auto split: option.splits)
  show ?case
  proof (cases r1)
    case (Inl e)
    with d Dispatch.prems disp [OF d] show ?thesis by simp
  next
    case (Inr v)
    with d Dispatch.prems have "exec call m (k v) w1 = Some (r, w')" by simp
    from trans [OF disp [OF d] Dispatch.IH [OF rangeI this]] show ?thesis .
  qed
next
  case (ReplaceReducer nr p)
  from ReplaceReducer.prems obtain r1 w1 where d: "replaceReducer call m nr w = Some (r1, w1)"
    by (auto split: option.splits)
  show ?case
  proof (cases r1)
    case (Inl e)
    with d ReplaceReducer.prems repl [OF d] show ?thesis by simp
  next
    case (Inr v)
    with d ReplaceReducer.prems have "exec call m p w1 = Some (r, w')" by simp
    from trans [OF repl [OF d] ReplaceReducer.IH [OF this]] show ?thesis .
  qed
next
  case (TryCatch p k)
  from TryCatch.prems obtain r1 w1 where d: "exec call m p w = Some (r1, w1)"
    by (auto split: option.splits)
  with TryCatch.prems have "exec call m (k r1) w1 = Some (r, w')" by simp
  from trans [OF TryCatch.IH(1) [OF d] TryCatch.IH(2) [OF rangeI this]] show ?case .
qed

lemma notify_respects:
  assumes refl: "\<And>w. R w w"
    and trans: "\<And>a b c. R a b \<Longrightarrow> R b c \<Longrightarrow> R a c"
    and callR: "\<And>f w r w'. call f [] w = Some (r, w') \<Longrightarrow> R w w'"
  shows "notify call m l i w = Some (r, w', c) \<Longrightarrow> R w w'"
proof (induction m arbitrary: i w r w' c)
  case 0
  then show ?case using refl by (auto split: if_splits)
next
  case (Suc m)
  show ?case
  proof (cases "i < length (arrays w ! l)")
    case False
    with Suc.prems refl show ?thesis by simp
  next
    case True
    with Suc.prems obtain r1 w1 where
      c1: "call (arrays w ! l ! i) [] w = Some (r1, w1)"
      by (auto split: option.splits)
    show ?thesis
    proof (cases r1)
      case (Inl e)
      with True c1 Suc.prems callR [OF c1] show ?thesis by simp
    next
      case (Inr v)
      with True c1 Suc.prems obtain c' where "notify call m l (i + 1) w1 = Some (r, w', c')"
        by (auto split: option.splits)
      from trans [OF callR [OF c1] Suc.IH [OF this]] show ?thesis .
    qed
  qed
qed

lemma notifyListeners_respects:
  assumes refl: "\<And>w. R w w"
    and trans: "\<And>a b c. R a b \<Longrightarrow> R b c \<Longrightarrow> R a c"
    and callR: "\<And>f w r w'. call f [] w = Some (r, w') \<Longrightarrow> R w w'"
    and swap: "\<And>w. R w (w\<lparr>currentListeners := nextListeners w\<rparr>)"
  shows "notifyListeners call m a w = Some (r, w', c) \<Longrightarrow> R w w'"
proof -
  assume "notifyListeners call m a w = Some (r, w', c)"
  then obtain r2 where
    "notify call m (nextListeners w) 0 (w\<lparr>currentListeners := nextListeners w\<rparr>) = Some (r2, w', c)"
    by (auto simp: notifyListeners_def Let_def split: option.splits sum.splits)
  from trans [OF swap notify_respects [where R = R, OF refl trans callR this]]
  show ?thesis .
qed

lemma dispatch_valid:
  "validAction a \<Longrightarrow>
     dispatch call m a w =
       (if isDispatching w then Some (Inl ReducersMayNotDispatch, w, [])
        else
          (case call (currentReducer w) [currentState w, a] (w\<lparr>isDispatching := True\<rparr>) of
             None \<Rightarrow> None
           | Some (Inl e, w1) \<Rightarrow> Some (Inl e, w1\<lparr>isDispatching := False\<rparr>, [])
           | Some (Inr s, w1) \<Rightarrow>
               notifyListeners call m a (w1\<lparr>currentState := s, isDispatching := False\<rparr>)))"
  by (auto simp: validAction_def dispatch_def split: sum.splits)

lemma dispatch_invalid:
  "\<not> validAction a \<Longrightarrow> \<exists>e. dispatch call m a w = Some (Inl e, w, [])"
  by (auto simp: validAction_def dispatch_def split: sum.splits)

lemma dispatch_respects:
  assumes refl: "\<And>w. R w w"
    and trans: "\<And>a b c. R a b \<Longrightarrow> R b c \<Longrightarrow> R a c"
    and callR: "\<And>f args w r w'. call f args w = Some (r, w') \<Longrightarrow> R w w'"
    and reduce_ok: "\<And>w w1 s. \<not> isDispatching w \<Longrightarrow> R (w\<lparr>isDispatching := True\<rparr>) w1 \<Longrightarrow>
        R w (w1\<lparr>currentState := s, isDispatching := False\<rparr>)"
    and reduce_err: "\<And>w w1. \<not> isDispatching w \<Longrightarrow> R (w\<lparr>isDispatching := True\<rparr>) w1 \<Longrightarrow>
        R w (w1\<lparr>isDispatching := False\<rparr>)"
    and swap: "\<And>w. R w (w\<lparr>currentListeners := nextListeners w\<rparr>)"
  shows "dispatch call m a w = Some (r, w', c) \<Longrightarrow> R w w'"
proof -
  assume d: "dispatch call m a w = Some (r, w', c)"
  show ?thesis
  proof (cases "validAction a \<and> \<not> isDispatching w")
    case False
    have "w' = w"
    proof (cases "validAction a")
      case True
      with False d show ?thesis by (simp add: dispatch_valid)
    next
      case False
      from dispatch_invalid [OF this, of call m w] d show ?thesis by auto
    qed
    with refl show ?thesis by simp
  next
    case True
    with d obtain r1 w1 where
      c1: "call (currentReducer w) [currentState w, a] (w\<lparr>isDispatching := True\<rparr>) = Some (r1, w1)"
      by (auto simp: dispatch_valid split: option.splits)
    show ?thesis
    proof (cases r1)
      case (Inl e)
      with True c1 d have "w' = w1\<lparr>isDispatching := False\<rparr>" by (simp add: dispatch_valid)
      with reduce_err [OF _ callR [OF c1]] True show ?thesis by simp
    next
      case (Inr s)
      with True c1 d have
        n: "notifyListeners call m a (w1\<lparr>currentState := s, isDispatching := False\<rparr>) = Some (r, w', c)"
        by (simp add: dispatch_valid)
      have callR0: "\<And>f w r w'. call f [] w = Some (r, w') \<Longrightarrow> R w w'"
        using callR .
      have "R (w1\<lparr>currentState := s, isDispatching := False\<rparr>) w'"
        using notifyListeners_respects [where R = R, OF refl trans callR0 swap n] .
      moreover have "R w (w1\<lparr>currentState := s, isDispatching := False\<rparr>)"
        using reduce_ok [OF _ callR [OF c1]] True by simp
      ultimately show ?thesis using trans by blast
    qed
  qed
qed

lemma replaceReducer_respects:
  assumes trans: "\<And>a b c. R a b \<Longrightarrow> R b c \<Longrightarrow> R a c"
    and refl: "\<And>w. R w w"
    and disp: "\<And>a w r w' c. dispatch call m a w = Some (r, w', c) \<Longrightarrow> R w w'"
    and setred: "\<And>w nr. R w (w\<lparr>currentReducer := nr\<rparr>)"
  shows "replaceReducer call m nr w = Some (r, w') \<Longrightarrow> R w w'"
proof -
  assume a: "replaceReducer call m nr w = Some (r, w')"
  show ?thesis
  proof (cases "typeof nr = ''function''")
    case False
    with a refl show ?thesis by (simp add: replaceReducer_def)
  next
    case True
    with a obtain r1 c where "dispatch call m initAction (w\<lparr>currentReducer := nr\<rparr>) = Some (r1, w', c)"
      by (auto simp: replaceReducer_def split: option.splits sum.splits)
    from trans [OF setred disp [OF this]] show ?thesis .
  qed
qed

lemma callFunction_respects:
  assumes refl: "\<And>w. R w w"
    and trans: "\<And>a b c. R a b \<Longrightarrow> R b c \<Longrightarrow> R a c"
    and sub: "\<And>l w r w'. subscribe l w = (r, w') \<Longrightarrow> R w w'"
    and unsub: "\<And>h w. h < length (subscriptions w) \<Longrightarrow> R w (unsubscribe h w)"
    and reduce_ok: "\<And>w w1 s. \<not> isDispatching w \<Longrightarrow> R (w\<lparr>isDispatching := True\<rparr>) w1 \<Longrightarrow>
        R w (w1\<lparr>currentState := s, isDispatching := False\<rparr>)"
    and reduce_err: "\<And>w w1. \<not> isDispatching w \<Longrightarrow> R (w\<lparr>isDispatching := True\<rparr>) w1 \<Longrightarrow>
        R w (w1\<lparr>isDispatching := False\<rparr>)"
    and swap: "\<And>w. R w (w\<lparr>currentListeners := nextListeners w\<rparr>)"
    and setred: "\<And>w nr. R w (w\<lparr>currentReducer := nr\<rparr>)"
  shows "callFunction n env f args w = Some (r, w') \<Longrightarrow> R w w'"
proof (induction n arbitrary: f args w r w')
  case 0
  then show ?case using refl by (auto split: val.splits)
next
  case (Suc n)
  show ?case
  proof (cases f)
    case (VFun i)
    have disp: "\<And>a w r w' c. dispatch (callFunction n env) n a w = Some (r, w', c) \<Longrightarrow> R w w'"
      using dispatch_respects [where R = R and call = "callFunction n env" and m = n,
        OF refl trans Suc.IH reduce_ok reduce_err swap] .
    have repl: "\<And>nr w r w'. replaceReducer (callFunction n env) n nr w = Some (r, w') \<Longrightarrow> R w w'"
      using replaceReducer_respects [where R = R and call = "callFunction n env" and m = n,
        OF trans refl disp setred] .
    from VFun Suc.prems have "exec (callFunction n env) n (env i args) w = Some (r, w')" by simp
    from exec_respects [where R = R and call = "callFunction n env" and m = n,
        OF refl trans sub unsub disp repl this]
    show ?thesis .
  qed (use Suc.prems refl in auto)
qed

lemma typeof_function: "typeof v = ''function'' \<longleftrightarrow> (\<exists>i. v = VFun i)"
  by (cases v) simp_all

lemma strict_eq_VFun [simp]: "strict_eq x (VFun i) \<longleftrightarrow> x = VFun i"
  by (cases x) auto

lemma indexOfFrom_function:
  "indexOfFrom xs (VFun j) i =
     (if VFun j \<in> set xs then i + int (length (takeWhile (\<lambda>x. x \<noteq> VFun j) xs)) else - 1)"
  by (induction xs arbitrary: i) auto

lemma remove1_takeWhile:
  "l \<in> set xs \<Longrightarrow>
     take (length (takeWhile (\<lambda>x. x \<noteq> l) xs)) xs @ drop (Suc (length (takeWhile (\<lambda>x. x \<noteq> l) xs))) xs
       = remove1 l xs"
  by (induction xs) auto

lemma splice_indexOf:
  assumes "VFun j \<in> set xs"
  shows "splice xs (indexOf xs (VFun j)) 1 = remove1 (VFun j) xs"
proof -
  let ?k = "length (takeWhile (\<lambda>x. x \<noteq> VFun j) xs)"
  have k: "?k < length xs"
    using assms by (induction xs) auto
  have "indexOf xs (VFun j) = int ?k"
    using assms by (simp add: indexOf_def indexOfFrom_function)
  moreover from k have "splice xs (int ?k) 1 = take ?k xs @ drop (Suc ?k) xs"
    by (simp add: splice_def Let_def min_def max_def nat_add_distrib)
  ultimately show ?thesis using remove1_takeWhile [OF assms] by simp
qed

lemma mset_unsubscribed:
  "h < length xs \<Longrightarrow> xs ! h = (l, True) \<Longrightarrow>
     mset (map fst (filter snd (xs[h := (l, False)]))) = mset (map fst (filter snd xs)) - {#l#}"
proof (induction xs arbitrary: h)
  case Nil
  then show ?case by simp
next
  case (Cons x xs)
  show ?case
  proof (cases h)
    case 0
    with Cons.prems show ?thesis by simp
  next
    case (Suc h')
    with Cons.prems have ih: "mset (map fst (filter snd (xs[h' := (l, False)]))) = mset (map fst (filter snd xs)) - {#l#}"
      using Cons.IH [of h'] by simp
    from Suc Cons.prems have "l \<in># mset (map fst (filter snd xs))"
      by (force simp: in_set_conv_nth)
    with ih Suc show ?thesis by (cases x) auto
  qed
qed

lemma evolves_refl: "evolves w w"
  by (simp add: evolves_def)

lemma evolves_trans: "evolves a b \<Longrightarrow> evolves b c \<Longrightarrow> evolves a c"
proof -
  assume ab: "evolves a b" and bc: "evolves b c"
  have fr: "frozen c x \<and> arrays c ! x = arrays a ! x" if "frozen a x" for x
    using that ab bc by (simp add: evolves_def)
  have len: "length (subscriptions a) \<le> length (subscriptions c)"
    using ab bc by (simp add: evolves_def)
  have sub: "fst (subscriptions c ! h) = fst (subscriptions a ! h) \<and>
      (snd (subscriptions c ! h) \<longrightarrow> snd (subscriptions a ! h))"
    if "h < length (subscriptions a)" for h
  proof -
    from that ab have "h < length (subscriptions b)" by (simp add: evolves_def)
    with that ab bc show ?thesis by (simp add: evolves_def)
  qed
  from fr len sub show ?thesis by (simp add: evolves_def)
qed

lemma ensure_frozen:
  "frozen w a \<Longrightarrow>
     frozen (ensureCanMutateNextListeners w) a \<and>
     arrays (ensureCanMutateNextListeners w) ! a = arrays w ! a \<and>
     nextListeners (ensureCanMutateNextListeners w) \<noteq> a"
  by (auto simp: frozen_def ensureCanMutateNextListeners_def nth_append)

lemma subscribe_evolves: "subscribe l w = (r, w') \<Longrightarrow> evolves w w'"
proof -
  assume s: "subscribe l w = (r, w')"
  show ?thesis
  proof (cases "typeof l = ''function''")
    case False
    with s show ?thesis by (simp add: subscribe_def evolves_refl)
  next
    case True
    let ?w1 = "w\<lparr>subscriptions := subscriptions w @ [(l, True)]\<rparr>"
    let ?w2 = "ensureCanMutateNextListeners ?w1"
    from True s have w': "w' = ?w2\<lparr>arrays := (arrays ?w2)[nextListeners ?w2 := arrays ?w2 ! nextListeners ?w2 @ [l]]\<rparr>"
      by (simp add: subscribe_def Let_def)
    have fr: "frozen w' a \<and> arrays w' ! a = arrays w ! a" if "frozen w a" for a
    proof -
      from that have "frozen ?w1 a" by (simp add: frozen_def)
      from ensure_frozen [OF this] show ?thesis
        unfolding w' by (simp add: frozen_def)
    qed
    have "subscriptions w' = subscriptions w @ [(l, True)]" unfolding w' by simp
    with fr show ?thesis by (simp add: evolves_def nth_append)
  qed
qed

lemma unsubscribe_evolves: "h < length (subscriptions w) \<Longrightarrow> evolves w (unsubscribe h w)"
proof -
  assume h: "h < length (subscriptions w)"
  obtain l b where lb: "subscriptions w ! h = (l, b)" by (cases "subscriptions w ! h")
  show ?thesis
  proof (cases b)
    case False
    with lb show ?thesis by (simp add: unsubscribe_def evolves_refl)
  next
    case True
    let ?w1 = "w\<lparr>subscriptions := (subscriptions w)[h := (l, False)]\<rparr>"
    let ?w2 = "ensureCanMutateNextListeners ?w1"
    let ?w' = "unsubscribe h w"
    from True lb have w': "?w' = ?w2\<lparr>arrays := (arrays ?w2)[nextListeners ?w2 := splice (arrays ?w2 ! nextListeners ?w2) (indexOf (arrays ?w2 ! nextListeners ?w2) l) 1]\<rparr>"
      by (simp add: unsubscribe_def Let_def)
    have fr: "frozen ?w' a \<and> arrays ?w' ! a = arrays w ! a" if "frozen w a" for a
    proof -
      from that have "frozen ?w1 a" by (simp add: frozen_def)
      from ensure_frozen [OF this] show ?thesis
        unfolding w' by (simp add: frozen_def)
    qed
    have "subscriptions ?w' = (subscriptions w)[h := (l, False)]" unfolding w' by simp
    with fr lb h show ?thesis by (auto simp: evolves_def nth_list_update)
  qed
qed

lemma evolves_reduce_ok:
  "evolves (w\<lparr>isDispatching := True\<rparr>) w1 \<Longrightarrow>
     evolves w (w1\<lparr>currentState := s, isDispatching := False\<rparr>)"
  by (simp add: evolves_def frozen_def)

lemma evolves_swap: "evolves w (w\<lparr>currentListeners := nextListeners w\<rparr>)"
  by (simp add: evolves_def frozen_def)

lemma evolves_reduce_err:
  "evolves (w\<lparr>isDispatching := True\<rparr>) w1 \<Longrightarrow> evolves w (w1\<lparr>isDispatching := False\<rparr>)"
  by (simp add: evolves_def frozen_def)

lemma evolves_setred: "evolves w (w\<lparr>currentReducer := nr\<rparr>)"
  by (simp add: evolves_def frozen_def)

lemma callFunction_evolves:
  "callFunction n env f args w = Some (r, w') \<Longrightarrow> evolves w w'"
  by (rule callFunction_respects [where R = evolves, OF evolves_refl evolves_trans subscribe_evolves
        unsubscribe_evolves evolves_reduce_ok evolves_reduce_err evolves_swap evolves_setred])

lemma callFunction_flag:
  "callFunction n env f args w = Some (r, w') \<Longrightarrow> isDispatching w' = isDispatching w"
  by (rule callFunction_respects [where R = "\<lambda>w w'. isDispatching w' = isDispatching w"])
     (auto dest: subscribe_fields)

lemma registered_ensure:
  assumes "currentListeners w < length (arrays w)" "nextListeners w < length (arrays w)"
  shows "registered (ensureCanMutateNextListeners w) = registered w"
    and "nextListeners (ensureCanMutateNextListeners w) < length (arrays (ensureCanMutateNextListeners w))"
    and "length (arrays w) \<le> length (arrays (ensureCanMutateNextListeners w))"
  using assms by (auto simp: registered_def ensureCanMutateNextListeners_def nth_append)

lemma subscribe_registered:
  assumes "store_inv w" "typeof l = ''function''"
  shows "subscribe l w = (Inr (length (subscriptions w)), snd (subscribe l w))"
    and "registered (snd (subscribe l w)) = registered w @ [l]"
    and "subscriptions (snd (subscribe l w)) = subscriptions w @ [(l, True)]"
    and "store_inv (snd (subscribe l w))"
proof -
  let ?w1 = "w\<lparr>subscriptions := subscriptions w @ [(l, True)]\<rparr>"
  let ?w2 = "ensureCanMutateNextListeners ?w1"
  let ?w' = "?w2\<lparr>arrays := (arrays ?w2)[nextListeners ?w2 := arrays ?w2 ! nextListeners ?w2 @ [l]]\<rparr>"
  from assms(2) show s: "subscribe l w = (Inr (length (subscriptions w)), snd (subscribe l w))"
    by (simp add: subscribe_def Let_def)
  from assms(2) have w': "snd (subscribe l w) = ?w'" by (simp add: subscribe_def Let_def)
  from assms(1) have c: "currentListeners ?w1 < length (arrays ?w1)" "nextListeners ?w1 < length (arrays ?w1)"
    by (simp_all add: store_inv_def)
  have r1: "registered ?w1 = registered w" by (simp add: registered_def)
  from registered_ensure [OF c] r1 show r: "registered (snd (subscribe l w)) = registered w @ [l]"
    unfolding w' by (simp add: registered_def)
  show su: "subscriptions (snd (subscribe l w)) = subscriptions w @ [(l, True)]"
    unfolding w' by simp
  from registered_ensure(2,3) [OF c] c assms(1) have "currentListeners ?w' < length (arrays ?w')" "nextListeners ?w' < length (arrays ?w')"
    by simp_all
  with assms r su show "store_inv (snd (subscribe l w))"
    unfolding w' by (simp add: store_inv_def)
qed

lemma subscribe_inv: "subscribe l w = (r, w') \<Longrightarrow> store_inv w \<Longrightarrow> store_inv w'"
proof (cases "typeof l = ''function''")
  case True
  assume "subscribe l w = (r, w')" "store_inv w"
  with subscribe_registered(4) [OF this(2) True] show ?thesis by simp
next
  case False
  assume "subscribe l w = (r, w')" "store_inv w"
  with False show ?thesis by (simp add: subscribe_def)
qed

lemma unsubscribe_done:
  "subscriptions w ! h = (l, False) \<Longrightarrow> unsubscribe h w = w"
  by (simp add: unsubscribe_def)

lemma unsubscribe_registered:
  assumes "store_inv w" "h < length (subscriptions w)" "subscriptions w ! h = (l, True)"
  shows "registered (unsubscribe h w) = remove1 l (registered w)"
    and "subscriptions (unsubscribe h w) = (subscriptions w)[h := (l, False)]"
    and "l \<in> set (registered w)"
    and "store_inv (unsubscribe h w)"
proof -
  let ?w1 = "w\<lparr>subscriptions := (subscriptions w)[h := (l, False)]\<rparr>"
  let ?w2 = "ensureCanMutateNextListeners ?w1"
  let ?w' = "?w2\<lparr>arrays := (arrays ?w2)[nextListeners ?w2 := splice (arrays ?w2 ! nextListeners ?w2) (indexOf (arrays ?w2 ! nextListeners ?w2) l) 1]\<rparr>"
  from assms(3) have w': "unsubscribe h w = ?w'" by (simp add: unsubscribe_def Let_def)
  from assms(1) have c: "currentListeners ?w1 < length (arrays ?w1)" "nextListeners ?w1 < length (arrays ?w1)"
    by (simp_all add: store_inv_def)
  have r1: "registered ?w1 = registered w" by (simp add: registered_def)
  from assms(2,3) have "(l, True) \<in> set (subscriptions w)" by (metis nth_mem)
  then have "l \<in># mset (map fst (filter snd (subscriptions w)))" by force
  with assms(1) show mem: "l \<in> set (registered w)" by (metis set_mset_mset store_inv_def)
  with assms(1) obtain j where j: "l = VFun j"
    by (auto simp: store_inv_def list_all_iff typeof_function)
  from registered_ensure(1) [OF c] r1 have r2: "arrays ?w2 ! nextListeners ?w2 = registered w"
    by (simp add: registered_def)
  from registered_ensure(2) [OF c] show r: "registered (unsubscribe h w) = remove1 l (registered w)"
    unfolding w' using r2 splice_indexOf [of j "registered w"] mem j
    by (simp add: registered_def)
  show su: "subscriptions (unsubscribe h w) = (subscriptions w)[h := (l, False)]"
    unfolding w' by simp
  from registered_ensure(2,3) [OF c] c have "currentListeners ?w' < length (arrays ?w')" "nextListeners ?w' < length (arrays ?w')"
    by simp_all
  moreover have "list_all (\<lambda>l. typeof l = ''function'') (remove1 l (registered w))"
    using assms(1) by (auto simp: store_inv_def list_all_iff dest: notin_set_remove1)
  moreover have "mset (remove1 l (registered w)) = mset (map fst (filter snd ((subscriptions w)[h := (l, False)])))"
    using assms(1) mset_unsubscribed [OF assms(2,3)] by (simp add: store_inv_def)
  ultimately show "store_inv (unsubscribe h w)"
    using r su unfolding w' by (simp add: store_inv_def)
qed

lemma unsubscribe_inv:
  "h < length (subscriptions w) \<Longrightarrow> store_inv w \<Longrightarrow> store_inv (unsubscribe h w)"
proof -
  assume h: "h < length (subscriptions w)" and i: "store_inv w"
  obtain l b where lb: "subscriptions w ! h = (l, b)" by (cases "subscriptions w ! h")
  show ?thesis
  proof (cases b)
    case True
    with unsubscribe_registered(4) [OF i h] lb show ?thesis by simp
  next
    case False
    with lb i show ?thesis by (simp add: unsubscribe_done)
  qed
qed

lemma callFunction_inv:
  "callFunction n env f args w = Some (r, w') \<Longrightarrow> store_inv w \<longrightarrow> store_inv w'"
  by (rule callFunction_respects [where R = "\<lambda>w w'. store_inv w \<longrightarrow> store_inv w'"])
     (auto simp: store_inv_def registered_def dest: subscribe_inv [unfolded store_inv_def registered_def]
        unsubscribe_inv [unfolded store_inv_def registered_def])

lemma notify_snapshot:
  assumes callR: "\<And>f w r w'. call f [] w = Some (r, w') \<Longrightarrow> evolves w w'"
  shows "notify call m l i w = Some (r, w', c) \<Longrightarrow> frozen w l \<Longrightarrow>
     frozen w' l \<and> arrays w' ! l = arrays w ! l \<and>
     (\<exists>rest. drop i (arrays w ! l) = c @ rest \<and> (\<forall>u. r = Inr u \<longrightarrow> rest = []))"
proof (induction m arbitrary: i w c)
  case 0
  then show ?case by (auto split: if_splits)
next
  case (Suc m)
  show ?case
  proof (cases "i < length (arrays w ! l)")
    case False
    with Suc.prems show ?thesis by auto
  next
    case True
    with Suc.prems obtain r1 w1 where
      c1: "call (arrays w ! l ! i) [] w = Some (r1, w1)"
      by (auto split: option.splits)
    from callR [OF c1] Suc.prems(2) have f1: "frozen w1 l" "arrays w1 ! l = arrays w ! l"
      by (simp_all add: evolves_def)
    from True have dr: "drop i (arrays w ! l) = arrays w ! l ! i # drop (Suc i) (arrays w ! l)"
      by (simp add: Cons_nth_drop_Suc)
    show ?thesis
    proof (cases r1)
      case (Inl e)
      with True c1 Suc.prems(1) have "r = Inl e" "w' = w1" "c = [arrays w ! l ! i]" by simp_all
      with f1 dr show ?thesis by simp
    next
      case (Inr v)
      with True c1 Suc.prems(1) obtain c' where
        n: "notify call m l (i + 1) w1 = Some (r, w', c')" and c: "c = arrays w ! l ! i # c'"
        by (auto split: option.splits)
      from Suc.IH [OF n f1(1)] f1(2) c dr show ?thesis by auto
    qed
  qed
qed

lemma notifyListeners_snapshot:
  assumes callR: "\<And>f w r w'. call f [] w = Some (r, w') \<Longrightarrow> evolves w w'"
    and n: "notifyListeners call m a w = Some (Inr v, w', c)"
    and len: "nextListeners w < length (arrays w)"
  shows "c = registered w" and "arrays w' ! nextListeners w = registered w" and "v = a"
proof -
  let ?w = "w\<lparr>currentListeners := nextListeners w\<rparr>"
  from n obtain u where
    nn: "notify call m (nextListeners w) 0 ?w = Some (Inr u, w', c)" and v: "v = a"
    by (auto simp: notifyListeners_def Let_def split: option.splits sum.splits)
  from len have fr: "frozen ?w (nextListeners w)" by (simp add: frozen_def)
  from notify_snapshot [where call = call, OF callR nn fr]
  show "c = registered w" "arrays w' ! nextListeners w = registered w"
    by (auto simp: registered_def)
  from v show "v = a" .
qed

lemma dispatch_evolves:
  "dispatch (callFunction n env) m a w = Some (r, w', c) \<Longrightarrow> evolves w w'"
  by (rule dispatch_respects [where R = evolves and call = "callFunction n env", OF evolves_refl evolves_trans
        callFunction_evolves evolves_reduce_ok evolves_reduce_err evolves_swap])

lemma dispatch_flag:
  "dispatch (callFunction n env) m a w = Some (r, w', c) \<Longrightarrow> isDispatching w' = isDispatching w"
  by (rule dispatch_respects [where R = "\<lambda>w w'. isDispatching w' = isDispatching w" and call = "callFunction n env"])
     (auto dest: callFunction_flag)

lemma store_inv_fields [simp]:
  "store_inv (w\<lparr>isDispatching := b\<rparr>) = store_inv w"
  "store_inv (w\<lparr>currentState := s\<rparr>) = store_inv w"
  "store_inv (w\<lparr>currentReducer := f\<rparr>) = store_inv w"
  by (simp_all add: store_inv_def registered_def)

lemma registered_fields [simp]:
  "registered (w\<lparr>isDispatching := b\<rparr>) = registered w"
  "registered (w\<lparr>currentState := s\<rparr>) = registered w"
  "registered (w\<lparr>currentReducer := f\<rparr>) = registered w"
  "registered (w\<lparr>currentListeners := l\<rparr>) = registered w"
  by (simp_all add: registered_def)

lemma store_inv_swap: "store_inv w \<Longrightarrow> store_inv (w\<lparr>currentListeners := nextListeners w\<rparr>)"
  by (simp add: store_inv_def registered_def)

lemma dispatch_inv:
  "dispatch (callFunction n env) m a w = Some (r, w', c) \<Longrightarrow> store_inv w \<longrightarrow> store_inv w'"
  by (rule dispatch_respects [where R = "\<lambda>w w'. store_inv w \<longrightarrow> store_inv w'" and call = "callFunction n env"])
     (auto dest: callFunction_inv store_inv_swap)

lemma typeof_undefined: "typeof t = ''undefined'' \<longleftrightarrow> t = VUndefined"
  by (cases t) simp_all

lemma exec_while_dispatching:
  "isDispatching w \<Longrightarrow> exec call m p w = Some (r, w') \<Longrightarrow>
     isDispatching w' \<and> currentState w' = currentState w"
proof (induction p arbitrary: w r w')
  case (GetState k)
  then show ?case using GetState.IH [OF rangeI] by simp
next
  case (Subscribe l k)
  obtain r1 w1 where s: "subscribe l w = (r1, w1)" by (cases "subscribe l w")
  from subscribe_fields [OF s] Subscribe.prems(1)
  have f: "isDispatching w1" "currentState w1 = currentState w" by simp_all
  show ?case
  proof (cases r1)
    case (Inl e)
    with s f Subscribe.prems show ?thesis by auto
  next
    case (Inr h)
    with s Subscribe.prems have "exec call m (k h) w1 = Some (r, w')" by simp
    from Subscribe.IH [OF rangeI f(1) this] f(2) show ?thesis by simp
  qed
next
  case (Unsubscribe h p)
  show ?case
  proof (cases "h < length (subscriptions w)")
    case True
    with Unsubscribe.prems have "exec call m p (unsubscribe h w) = Some (r, w')" by simp
    from Unsubscribe.IH [OF _ this] Unsubscribe.prems(1) show ?thesis by simp
  next
    case False
    with Unsubscribe.prems show ?thesis by simp
  qed
next
  case (Dispatch a k)
  from dispatch_while_dispatching [OF Dispatch.prems(1), of call m a]
  obtain e where "dispatch call m a w = Some (Inl e, w, [])" by blast
  with Dispatch.prems show ?case by simp
next
  case (ReplaceReducer nr p)
  have "isDispatching (w\<lparr>currentReducer := nr\<rparr>)" using ReplaceReducer.prems by simp
  from dispatch_while_dispatching [OF this, of call m initAction]
  obtain e where "dispatch call m initAction (w\<lparr>currentReducer := nr\<rparr>)
      = Some (Inl e, w\<lparr>currentReducer := nr\<rparr>, [])" by blast
  with ReplaceReducer.prems show ?case by (auto simp: replaceReducer_def split: if_splits)
next
  case (TryCatch p k)
  from TryCatch.prems obtain r1 w1 where d: "exec call m p w = Some (r1, w1)"
    by (auto split: option.splits)
  with TryCatch.prems have e: "exec call m (k r1) w1 = Some (r, w')" by simp
  from TryCatch.IH(1) [OF TryCatch.prems(1) d]
  have f: "isDispatching w1" "currentState w1 = currentState w" by simp_all
  from TryCatch.IH(2) [OF rangeI f(1) e] f(2) show ?case by simp
qed auto

lemma idle_flag: "\<not> isDispatching w \<Longrightarrow> w\<lparr>isDispatching := False\<rparr> = w"
  by (cases w) simp

lemma callFunction_while_dispatching:
  "isDispatching w \<Longrightarrow> callFunction n env f args w = Some (r, w') \<Longrightarrow>
     isDispatching w' \<and> currentState w' = currentState w"
proof (cases n)
  case 0
  assume "isDispatching w" "callFunction n env f args w = Some (r, w')"
  with 0 show ?thesis by (auto split: val.splits)
next
  case (Suc n')
  assume a: "isDispatching w" "callFunction n env f args w = Some (r, w')"
  show ?thesis
  proof (cases f)
    case (VFun i)
    with a Suc have "exec (callFunction n' env) n' (env i args) w = Some (r, w')" by simp
    from exec_while_dispatching [OF a(1) this] show ?thesis .
  qed (use a Suc in auto)
qed

lemma notifyListeners_empty:
  "registered w = [] \<Longrightarrow>
     notifyListeners call m a w = Some (Inr a, w\<lparr>currentListeners := nextListeners w\<rparr>, [])"
  by (cases m) (simp_all add: notifyListeners_def registered_def)

lemma replaceReducer_while_dispatching:
  "isDispatching w \<Longrightarrow> \<exists>e w'. replaceReducer call m nr w = Some (Inl e, w')"
proof -
  assume f: "isDispatching w"
  then have "isDispatching (w\<lparr>currentReducer := nr\<rparr>)" by simp
  from dispatch_while_dispatching [OF this, of call m initAction]
  show ?thesis by (auto simp: replaceReducer_def)
qed

lemma exec_withState:
  "isDispatching w \<Longrightarrow> currentState w = s \<Longrightarrow>
     exec call m (withState s p) w = exec call m p w"
proof (induction p arbitrary: w)
  case (GetState k)
  then show ?case using GetState.IH [OF rangeI] by (simp add: getState_def)
next
  case (Subscribe l k)
  obtain r1 w1 where s: "subscribe l w = (r1, w1)" by (cases "subscribe l w")
  from subscribe_fields [OF s] Subscribe.prems
  have f: "isDispatching w1" "currentState w1 = s" by simp_all
  show ?case
  proof (cases r1)
    case (Inl e)
    with s show ?thesis by simp
  next
    case (Inr h)
    with s Subscribe.IH [OF rangeI f] show ?thesis by simp
  qed
next
  case (Unsubscribe h p)
  then show ?case by simp
next
  case (Dispatch a k)
  from dispatch_while_dispatching [OF Dispatch.prems(1), of call m a]
  obtain e where "dispatch call m a w = Some (Inl e, w, [])" by blast
  then show ?case by simp
next
  case (ReplaceReducer nr p)
  from replaceReducer_while_dispatching [OF ReplaceReducer.prems(1), of call m nr]
  obtain e w' where "replaceReducer call m nr w = Some (Inl e, w')" by blast
  then show ?case by simp
next
  case (TryCatch p k)
  have e1: "exec call m (withState s p) w = exec call m p w"
    using TryCatch.IH(1) [OF TryCatch.prems] .
  show ?case
  proof (cases "exec call m p w")
    case None
    with e1 show ?thesis by simp
  next
    case (Some x)
    obtain r1 w1 where x: "x = (r1, w1)" by (cases x)
    from exec_while_dispatching [OF TryCatch.prems(1) Some [unfolded x]] TryCatch.prems(2)
    have f: "isDispatching w1" "currentState w1 = s" by simp_all
    from TryCatch.IH(2) [OF rangeI f] e1 Some x show ?thesis by simp
  qed
qed simp_all

lemma exec_noDispatch:
  "noDispatch p \<Longrightarrow> exec call m p w = Some (r, w') \<Longrightarrow>
     currentState w' = currentState w \<and> currentReducer w' = currentReducer w"
proof (induction p arbitrary: w r w')
  case (GetState k)
  then show ?case using GetState.IH [OF rangeI] by simp
next
  case (Subscribe l k)
  obtain r1 w1 where s: "subscribe l w = (r1, w1)" by (cases "subscribe l w")
  note f = subscribe_fields [OF s]
  show ?case
  proof (cases r1)
    case (Inl e)
    with s f Subscribe.prems show ?thesis by auto
  next
    case (Inr h)
    with s Subscribe.prems have "exec call m (k h) w1 = Some (r, w')" "noDispatch (k h)" by simp_all
    from Subscribe.IH [OF rangeI this(2,1)] f show ?thesis by simp
  qed
next
  case (Unsubscribe h p)
  show ?case
  proof (cases "h < length (subscriptions w)")
    case True
    with Unsubscribe.prems have "exec call m p (unsubscribe h w) = Some (r, w')" "noDispatch p" by simp_all
    from Unsubscribe.IH [OF this(2,1)] show ?thesis by simp
  next
    case False
    with Unsubscribe.prems show ?thesis by simp
  qed
next
  case (TryCatch p k)
  from TryCatch.prems obtain r1 w1 where d: "exec call m p w = Some (r1, w1)"
    by (auto split: option.splits)
  with TryCatch.prems have e: "exec call m (k r1) w1 = Some (r, w')" "noDispatch p" "noDispatch (k r1)"
    by simp_all
  from TryCatch.IH(1) [OF e(2) d] TryCatch.IH(2) [OF rangeI e(3,1)] show ?case by simp
qed auto

lemma callFunction_listener_quiet:
  "\<forall>j. noDispatch (env j []) \<Longrightarrow> callFunction n env f [] w = Some (r, w') \<Longrightarrow>
     currentState w' = currentState w \<and> currentReducer w' = currentReducer w"
proof (cases n)
  case 0
  assume "callFunction n env f [] w = Some (r, w')"
  with 0 show ?thesis by (auto split: val.splits)
next
  case (Suc n')
  assume q: "\<forall>j. noDispatch (env j [])" and c: "callFunction n env f [] w = Some (r, w')"
  show ?thesis
  proof (cases f)
    case (VFun i)
    with c Suc have "exec (callFunction n' env) n' (env i []) w = Some (r, w')" by simp
    from exec_noDispatch [OF _ this] q show ?thesis by simp
  qed (use c Suc in auto)
qed

lemma notifyListeners_quiet:
  assumes q: "\<forall>j. noDispatch (env j [])"
    and n: "notifyListeners (callFunction n env) m a w = Some (r, w', c)"
  shows "currentState w' = currentState w \<and> currentReducer w' = currentReducer w"
  by (rule notifyListeners_respects [where R = "\<lambda>w w'. currentState w' = currentState w \<and> currentReducer w' = currentReducer w"
        and call = "callFunction n env" and m = m and a = a and r = r and c = c, OF _ _ _ _ n])
     (use q in \<open>auto dest: callFunction_listener_quiet\<close>)

lemma replaceReducer_evolves:
  "replaceReducer (callFunction n env) m nr w = Some (r, w') \<Longrightarrow> evolves w w'"
  by (rule replaceReducer_respects [where R = evolves and call = "callFunction n env" and m = m,
        OF evolves_trans evolves_refl dispatch_evolves evolves_setred])

lemma exec_evolves:
  "exec (callFunction n env) m p w = Some (r, w') \<Longrightarrow> evolves w w'"
  by (rule exec_respects [where R = evolves and call = "callFunction n env" and m = m,
        OF evolves_refl evolves_trans subscribe_evolves unsubscribe_evolves dispatch_evolves
          replaceReducer_evolves])

lemma replaceReducer_pure:
  assumes idle: "\<not> isDispatching w" and p: "env i [currentState w, initAction] = Return s"
  shows "replaceReducer (callFunction (Suc n) env) m (VFun i) w =
        (case notifyListeners (callFunction (Suc n) env) m initAction
                (w\<lparr>currentReducer := VFun i, currentState := s\<rparr>) of
           None \<Rightarrow> None
         | Some (Inl e, w', c) \<Rightarrow> Some (Inl e, w')
         | Some (Inr v, w', c) \<Rightarrow> Some (Inr VUndefined, w'))"
proof -
  have v: "validAction initAction"
    by (simp add: validAction_def initAction_def isPlainObject_def getProp_def)
  have e2: "w\<lparr>currentReducer := VFun i, isDispatching := True, currentState := s, isDispatching := False\<rparr>
      = w\<lparr>currentReducer := VFun i, currentState := s\<rparr>"
    using idle by (cases w) simp
  have "dispatch (callFunction (Suc n) env) m initAction (w\<lparr>currentReducer := VFun i\<rparr>)
      = notifyListeners (callFunction (Suc n) env) m initAction
          (w\<lparr>currentReducer := VFun i, isDispatching := True, currentState := s, isDispatching := False\<rparr>)"
    using idle p by (simp add: dispatch_valid [OF v])
  then have "dispatch (callFunction (Suc n) env) m initAction (w\<lparr>currentReducer := VFun i\<rparr>)
      = notifyListeners (callFunction (Suc n) env) m initAction
          (w\<lparr>currentReducer := VFun i, currentState := s\<rparr>)"
    by (simp only: e2)
  then show ?thesis
    by (simp add: replaceReducer_def split: option.splits sum.splits prod.splits)
qed

lemma dispatch_idle:
  "dispatch call m a w = Some (Inr v, w', called) \<Longrightarrow> validAction a \<and> \<not> isDispatching w"
proof -
  assume d: "dispatch call m a w = Some (Inr v, w', called)"
  have va: "validAction a"
    using d dispatch_invalid [of a call m w] by (cases "validAction a") auto
  with d show ?thesis by (auto simp: dispatch_valid split: if_splits)
qed

lemma notification_calls_registered:
  assumes inv: "store_inv w"
    and d: "dispatch (callFunction n env) m a w = Some (Inr v, w', called)"
  shows "\<exists>s w1.
     callFunction n env (currentReducer w) [currentState w, a] (w\<lparr>isDispatching := True\<rparr>)
       = Some (Inr s, w1) \<and>
     called = registered w1 \<and> arrays w' ! nextListeners w1 = called"
proof -
  note i = dispatch_idle [OF d]
  with d obtain s w1 where
    c1: "callFunction n env (currentReducer w) [currentState w, a] (w\<lparr>isDispatching := True\<rparr>)
       = Some (Inr s, w1)" and
    nl: "notifyListeners (callFunction n env) m a (w1\<lparr>currentState := s, isDispatching := False\<rparr>)
       = Some (Inr v, w', called)"
    by (auto simp: dispatch_valid split: option.splits sum.splits)
  let ?w2 = "w1\<lparr>currentState := s, isDispatching := False\<rparr>"
  from callFunction_inv [OF c1] inv have "store_inv w1" by simp
  then have len: "nextListeners ?w2 < length (arrays ?w2)" by (simp add: store_inv_def)
  have ev: "\<And>f w r w'. callFunction n env f [] w = Some (r, w') \<Longrightarrow> evolves w w'"
    by (rule callFunction_evolves)
  from notifyListeners_snapshot(1,2) [where call = "callFunction n env", OF ev nl len]
  have "called = registered w1" "arrays w' ! nextListeners w1 = called" by simp_all
  with c1 show ?thesis by blast
qed

text \<open>
  A reducer that neither subscribes nor unsubscribes leaves the listeners as they are:
  then the listeners that the dispatch calls are those registered when it began, and
  what the listeners change during the notification shows in the next dispatch, not in
  this one.
\<close>

lemma exec_noSubscribe:
  "noSubscribe p \<Longrightarrow> isDispatching w \<Longrightarrow> exec call m p w = Some (r, w') \<Longrightarrow>
     isDispatching w' \<and> arrays w' = arrays w \<and> nextListeners w' = nextListeners w \<and>
     currentListeners w' = currentListeners w \<and> subscriptions w' = subscriptions w"
proof (induction p arbitrary: w r w')
  case (GetState k)
  then show ?case using GetState.IH [OF rangeI] by simp
next
  case (Dispatch a k)
  from dispatch_while_dispatching [OF Dispatch.prems(2), of call m a]
  obtain e where "dispatch call m a w = Some (Inl e, w, [])" by blast
  with Dispatch.prems show ?case by simp
next
  case (ReplaceReducer nr p)
  have "isDispatching (w\<lparr>currentReducer := nr\<rparr>)" using ReplaceReducer.prems by simp
  from dispatch_while_dispatching [OF this, of call m initAction]
  obtain e where "dispatch call m initAction (w\<lparr>currentReducer := nr\<rparr>)
      = Some (Inl e, w\<lparr>currentReducer := nr\<rparr>, [])" by blast
  with ReplaceReducer.prems show ?case by (auto simp: replaceReducer_def split: if_splits)
next
  case (TryCatch p k)
  from TryCatch.prems obtain r1 w1 where d: "exec call m p w = Some (r1, w1)"
    by (auto split: option.splits)
  with TryCatch.prems have e: "exec call m (k r1) w1 = Some (r, w')" by simp
  from TryCatch.prems(1) have q: "noSubscribe p" "noSubscribe (k r1)" by simp_all
  from TryCatch.IH(1) [OF q(1) TryCatch.prems(2) d]
  have f: "isDispatching w1" "arrays w1 = arrays w" "nextListeners w1 = nextListeners w"
    "currentListeners w1 = currentListeners w" "subscriptions w1 = subscriptions w" by simp_all
  from TryCatch.IH(2) [OF rangeI q(2) f(1) e] f(2-) show ?case by simp
qed auto

lemma quiet_reducer_calls_registered:
  assumes inv: "store_inv w"
    and d: "dispatch (callFunction n env) m a w = Some (Inr v, w', called)"
    and r: "currentReducer w = VFun i" "noSubscribe (env i [currentState w, a])"
  shows "called = registered w"
proof -
  from notification_calls_registered [OF inv d] r(1) obtain s w1 where
    c: "callFunction n env (VFun i) [currentState w, a] (w\<lparr>isDispatching := True\<rparr>) = Some (Inr s, w1)"
    and k: "called = registered w1"
    by auto
  from c obtain n' where n: "n = Suc n'" by (cases n) simp_all
  with c have "exec (callFunction n' env) n' (env i [currentState w, a]) (w\<lparr>isDispatching := True\<rparr>)
      = Some (Inr s, w1)" by simp
  from exec_noSubscribe [OF r(2) _ this] have "registered w1 = registered w"
    by (simp add: registered_def)
  with k show ?thesis by simp
qed

lemma quiet_reducers_notification_changes:
  assumes inv: "store_inv w"
    and r1: "currentReducer w = VFun i1" "noSubscribe (env i1 [currentState w, a1])"
    and d1: "dispatch (callFunction n1 env) m1 a1 w = Some (Inr v1, w1, called1)"
    and r2: "currentReducer w1 = VFun i2" "noSubscribe (env i2 [currentState w1, a2])"
    and d2: "dispatch (callFunction n2 env) m2 a2 w1 = Some (Inr v2, w2, called2)"
  shows "called1 = registered w \<and> called2 = registered w1"
proof -
  from quiet_reducer_calls_registered [OF inv d1 r1] have c1: "called1 = registered w" .
  from dispatch_inv [OF d1] inv have inv1: "store_inv w1" by simp
  from quiet_reducer_calls_registered [OF inv1 d2 r2] have c2: "called2 = registered w1" .
  from c1 c2 show ?thesis by simp
qed

lemma subscribe_twice:
  assumes inv: "store_inv w" and f: "typeof f = ''function''"
  shows "\<exists>h1 w1 h2 w2.
     subscribe f w = (Inr h1, w1) \<and> subscribe f w1 = (Inr h2, w2) \<and> h1 \<noteq> h2 \<and>
     mset (registered w2) = mset (registered w) + {#f, f#} \<and>
     mset (registered (unsubscribe h1 w2)) = mset (registered w) + {#f#} \<and>
     mset (registered (unsubscribe h2 w2)) = mset (registered w) + {#f#}"
proof -
  let ?h1 = "length (subscriptions w)"
  let ?w1 = "snd (subscribe f w)"
  let ?h2 = "length (subscriptions ?w1)"
  let ?w2 = "snd (subscribe f ?w1)"
  note s1 = subscribe_registered [OF inv f]
  note s2 = subscribe_registered [OF s1(4) f]
  have h: "?h1 < length (subscriptions ?w2)" "?h2 < length (subscriptions ?w2)" "?h1 \<noteq> ?h2"
    using s1(3) s2(3) by simp_all
  have l: "subscriptions ?w2 ! ?h1 = (f, True)" "subscriptions ?w2 ! ?h2 = (f, True)"
    using s1(3) s2(3) by (simp_all add: nth_append)
  have r: "registered ?w2 = registered w @ [f, f]" using s1(2) s2(2) by simp
  from unsubscribe_registered(1) [OF s2(4) h(1) l(1)] r
  have u1: "mset (registered (unsubscribe ?h1 ?w2)) = mset (registered w) + {#f#}" by simp
  from unsubscribe_registered(1) [OF s2(4) h(2) l(2)] r
  have u2: "mset (registered (unsubscribe ?h2 ?w2)) = mset (registered w) + {#f#}" by simp
  from s1(1) s2(1) h(3) r u1 u2 show ?thesis by (intro exI [of _ ?h1] exI [of _ ?w1] exI [of _ ?h2] exI [of _ ?w2]) simp
qed

text \<open>
  The stores that \<^verbatim>\<open>createStore\<close> returns satisfy \<open>store_inv\<close>, and every operation keeps
  it (\<open>subscribe_inv\<close>, \<open>unsubscribe_inv\<close>, \<open>dispatch_inv\<close>, \<open>callFunction_inv\<close>).
\<close>

lemma createStore_inv:
  assumes "createStore (callFunction n env) m reducer preloadedState enhancer = Some (Inr (Store w))"
  shows "store_inv w \<and> \<not> isDispatching w"
proof -
  let ?w0 = "\<lambda>s. \<lparr>currentReducer = reducer, currentState = s,
                   currentListeners = 0, nextListeners = 0, isDispatching = False,
                   arrays = [[]], subscriptions = []\<rparr>"
  from assms obtain s v c where
    d: "dispatch (callFunction n env) m initAction (?w0 s) = Some (Inr v, w, c)"
    by (auto simp: createStore_def Let_def split: if_splits option.splits sum.splits)
  have "store_inv (?w0 s)" by (simp add: store_inv_def registered_def)
  with dispatch_inv [OF d] dispatch_flag [OF d] show ?thesis by simp
qed

subsection \<open>The bound on nested calls\<close>

text \<open>
  A run that ends within a bound ends the same way within any larger bound.
\<close>

lemma notify_mono:
  assumes ext: "\<And>f args w r. call f args w = Some r \<Longrightarrow> call' f args w = Some r"
  shows "notify call m l i w = Some r \<Longrightarrow> m \<le> m' \<Longrightarrow> notify call' m' l i w = Some r"
proof (induction m arbitrary: m' i w r)
  case 0
  then show ?case by (cases m') (auto split: if_splits)
next
  case (Suc m)
  from Suc.prems(2) obtain k where m': "m' = Suc k" "m \<le> k" by (cases m') auto
  show ?case
  proof (cases "i < length (arrays w ! l)")
    case False
    with Suc.prems(1) m' show ?thesis by simp
  next
    case True
    with Suc.prems(1) obtain r1 w1 where c1: "call (arrays w ! l ! i) [] w = Some (r1, w1)"
      by (auto split: option.splits)
    note c1' = ext [OF c1]
    show ?thesis
    proof (cases r1)
      case (Inl e)
      with True c1 c1' Suc.prems(1) m' show ?thesis by simp
    next
      case (Inr v)
      with True c1 Suc.prems(1) obtain x where n: "notify call m l (i + 1) w1 = Some x"
        by (auto split: option.splits)
      from Suc.IH [OF n m'(2)] n True c1 c1' Inr Suc.prems(1) m' show ?thesis by simp
    qed
  qed
qed

lemma notifyListeners_mono:
  assumes ext: "\<And>f args w r. call f args w = Some r \<Longrightarrow> call' f args w = Some r"
    and n: "notifyListeners call m a w = Some r" and le: "m \<le> m'"
  shows "notifyListeners call' m' a w = Some r"
proof -
  from n obtain x where
    x: "notify call m (nextListeners w) 0 (w\<lparr>currentListeners := nextListeners w\<rparr>) = Some x"
    by (auto simp: notifyListeners_def Let_def split: option.splits)
  from notify_mono [where call = call and call' = call', OF ext x le] x n show ?thesis
    by (simp add: notifyListeners_def Let_def)
qed

lemma dispatch_mono:
  assumes ext: "\<And>f args w r. call f args w = Some r \<Longrightarrow> call' f args w = Some r"
    and d: "dispatch call m a w = Some r" and le: "m \<le> m'"
  shows "dispatch call' m' a w = Some r"
proof (cases "validAction a \<and> \<not> isDispatching w")
  case False
  then show ?thesis
  proof (cases "validAction a")
    case True
    with False d show ?thesis by (simp add: dispatch_valid)
  next
    case False
    then have "dispatch call' m' a w = dispatch call m a w"
      by (auto simp: validAction_def dispatch_def split: sum.splits)
    with d show ?thesis by simp
  qed
next
  case True
  with d obtain r1 w1 where
    c1: "call (currentReducer w) [currentState w, a] (w\<lparr>isDispatching := True\<rparr>) = Some (r1, w1)"
    by (auto simp: dispatch_valid split: option.splits)
  note c1' = ext [OF c1]
  show ?thesis
  proof (cases r1)
    case (Inl e)
    with True c1 c1' d show ?thesis by (simp add: dispatch_valid)
  next
    case (Inr s)
    with True c1 d have
      "notifyListeners call m a (w1\<lparr>currentState := s, isDispatching := False\<rparr>) = Some r"
      by (simp add: dispatch_valid)
    from notifyListeners_mono [where call = call and call' = call', OF ext this le] True c1' Inr
    show ?thesis by (simp add: dispatch_valid)
  qed
qed

lemma replaceReducer_mono:
  assumes ext: "\<And>f args w r. call f args w = Some r \<Longrightarrow> call' f args w = Some r"
    and d: "replaceReducer call m nr w = Some r" and le: "m \<le> m'"
  shows "replaceReducer call' m' nr w = Some r"
proof (cases "typeof nr = ''function''")
  case False
  with d show ?thesis by (simp add: replaceReducer_def)
next
  case True
  with d obtain x where x: "dispatch call m initAction (w\<lparr>currentReducer := nr\<rparr>) = Some x"
    by (auto simp: replaceReducer_def split: option.splits)
  from dispatch_mono [where call = call and call' = call', OF ext x le] x d True
  show ?thesis by (simp add: replaceReducer_def)
qed

lemma exec_mono:
  assumes ext: "\<And>f args w r. call f args w = Some r \<Longrightarrow> call' f args w = Some r"
    and le: "m \<le> m'"
  shows "exec call m p w = Some r \<Longrightarrow> exec call' m' p w = Some r"
proof (induction p arbitrary: w r)
  case (GetState k)
  then show ?case using GetState.IH [OF rangeI] by simp
next
  case (Subscribe l k)
  obtain r1 w1 where s: "subscribe l w = (r1, w1)" by (cases "subscribe l w")
  show ?case
  proof (cases r1)
    case (Inl e)
    with s Subscribe.prems show ?thesis by simp
  next
    case (Inr h)
    with s Subscribe.prems have "exec call m (k h) w1 = Some r" by simp
    from Subscribe.IH [OF rangeI this] s Inr show ?thesis by simp
  qed
next
  case (Unsubscribe h p)
  then show ?case by (cases "h < length (subscriptions w)") simp_all
next
  case (Dispatch a k)
  from Dispatch.prems obtain x where d: "dispatch call m a w = Some x"
    by (auto split: option.splits)
  note d' = dispatch_mono [where call = call and call' = call', OF ext d le]
  obtain r1 w1 c where x: "x = (r1, w1, c)" by (cases x)
  show ?case
  proof (cases r1)
    case (Inl e)
    with d x Dispatch.prems have "r = (Inl e, w1)" by simp
    with d' x Inl show ?thesis by simp
  next
    case (Inr v)
    with d x Dispatch.prems have "exec call m (k v) w1 = Some r" by simp
    from Dispatch.IH [OF rangeI this] d' x Inr show ?thesis by simp
  qed
next
  case (ReplaceReducer nr p)
  from ReplaceReducer.prems obtain x where d: "replaceReducer call m nr w = Some x"
    by (auto split: option.splits)
  note d' = replaceReducer_mono [where call = call and call' = call', OF ext d le]
  obtain r1 w1 where x: "x = (r1, w1)" by (cases x)
  show ?case
  proof (cases r1)
    case (Inl e)
    with d x ReplaceReducer.prems have "r = (Inl e, w1)" by simp
    with d' x Inl show ?thesis by simp
  next
    case (Inr v)
    with d x ReplaceReducer.prems have "exec call m p w1 = Some r" by simp
    from ReplaceReducer.IH [OF this] d' x Inr show ?thesis by simp
  qed
next
  case (TryCatch p k)
  from TryCatch.prems obtain r1 w1 where d: "exec call m p w = Some (r1, w1)"
    by (auto split: option.splits)
  with TryCatch.prems have e: "exec call m (k r1) w1 = Some r" by simp
  from TryCatch.IH(1) [OF d] TryCatch.IH(2) [OF rangeI e] show ?case by simp
qed simp_all

lemma callFunction_mono:
  "callFunction n env f args w = Some r \<Longrightarrow> n \<le> n' \<Longrightarrow> callFunction n' env f args w = Some r"
proof (induction n arbitrary: n' f args w r)
  case 0
  then show ?case by (cases n'; cases f) auto
next
  case (Suc n)
  from Suc.prems(2) obtain k where n': "n' = Suc k" "n \<le> k" by (cases n') auto
  show ?case
  proof (cases f)
    case (VFun i)
    with Suc.prems(1) have e: "exec (callFunction n env) n (env i args) w = Some r" by simp
    have ext: "\<And>f args w r. callFunction n env f args w = Some r \<Longrightarrow> callFunction k env f args w = Some r"
      using Suc.IH n'(2) by blast
    from exec_mono [where call = "callFunction n env" and call' = "callFunction k env", OF ext n'(2) e]
      VFun n' show ?thesis by simp
  qed (use Suc.prems n' in auto)
qed

lemma dispatch_fuel:
  assumes "dispatch (callFunction n env) m a w = Some r" "n \<le> n'" "m \<le> m'"
  shows "dispatch (callFunction n' env) m' a w = Some r"
proof -
  have ext: "\<And>f args w r. callFunction n env f args w = Some r \<Longrightarrow> callFunction n' env f args w = Some r"
    using callFunction_mono assms(2) by blast
  from dispatch_mono [where call = "callFunction n env" and call' = "callFunction n' env",
      OF ext assms(1,3)] show ?thesis .
qed

text \<open>
  When no listener dispatches, every call of a listener ends, and a dispatch with a
  reducer that only returns a value ends as soon as the bound on the steps of the loop
  is the number of registered listeners.
\<close>

lemma exec_noDispatch_total:
  "noDispatch p \<Longrightarrow> \<exists>r w'. exec call m p w = Some (r, w')"
proof (induction p arbitrary: w)
  case (GetState k)
  then show ?case using GetState.IH [OF rangeI] by simp
next
  case (Subscribe l k)
  obtain r1 w1 where s: "subscribe l w = (r1, w1)" by (cases "subscribe l w")
  show ?case
  proof (cases r1)
    case (Inl e)
    with s show ?thesis by simp
  next
    case (Inr h)
    from Subscribe.prems have "noDispatch (k h)" by simp
    from Subscribe.IH [OF rangeI this, of w1] s Inr show ?thesis by simp
  qed
next
  case (Unsubscribe h p)
  then show ?case by (cases "h < length (subscriptions w)") simp_all
next
  case (TryCatch p k)
  from TryCatch.prems TryCatch.IH(1) [of w] obtain r1 w1 where
    d: "exec call m p w = Some (r1, w1)" by auto
  from TryCatch.prems have "noDispatch (k r1)" by simp
  from TryCatch.IH(2) [OF rangeI this, of w1] d show ?case by simp
qed simp_all

lemma callFunction_quiet_total:
  assumes "\<forall>j. noDispatch (env j [])"
  shows "\<exists>r w'. callFunction (Suc n) env f [] w = Some (r, w')"
proof (cases f)
  case (VFun i)
  from assms have "noDispatch (env i [])" by simp
  from exec_noDispatch_total [OF this] VFun show ?thesis by simp
qed simp_all

lemma notify_quiet_total:
  assumes q: "\<forall>j. noDispatch (env j [])"
  shows "frozen w l \<Longrightarrow> length (arrays w ! l) \<le> i + m \<Longrightarrow>
     \<exists>r w' c. notify (callFunction (Suc n) env) m l i w = Some (r, w', c)"
proof (induction m arbitrary: i w)
  case 0
  then show ?case by simp
next
  case (Suc m)
  show ?case
  proof (cases "i < length (arrays w ! l)")
    case False
    then show ?thesis by simp
  next
    case True
    from callFunction_quiet_total [where env = env and n = n and f = "arrays w ! l ! i" and w = w, OF q]
    obtain r1 w1 where
      c1: "callFunction (Suc n) env (arrays w ! l ! i) [] w = Some (r1, w1)" by blast
    from callFunction_evolves [OF c1] Suc.prems(1)
    have f1: "frozen w1 l" "arrays w1 ! l = arrays w ! l" by (simp_all add: evolves_def)
    show ?thesis
    proof (cases r1)
      case (Inl e)
      with True c1 show ?thesis by (simp del: callFunction.simps)
    next
      case (Inr v)
      from Suc.prems(2) f1(2) have "length (arrays w1 ! l) \<le> (i + 1) + m" by simp
      from Suc.IH [OF f1(1) this] obtain r w' c where
        "notify (callFunction (Suc n) env) m l (i + 1) w1 = Some (r, w', c)" by blast
      with True c1 Inr show ?thesis by (simp del: callFunction.simps)
    qed
  qed
qed

lemma dispatch_terminates:
  assumes inv: "store_inv w" and idle: "\<not> isDispatching w" and va: "validAction a"
    and red: "currentReducer w = VFun i" "env i [currentState w, a] = Return s"
    and q: "\<forall>j. noDispatch (env j [])"
    and m: "length (registered w) \<le> m"
  shows "\<exists>r w' called. dispatch (callFunction (Suc n) env) m a w = Some (r, w', called)"
proof -
  let ?w2 = "w\<lparr>isDispatching := True, currentState := s, isDispatching := False\<rparr>"
  let ?w3 = "?w2\<lparr>currentListeners := nextListeners ?w2\<rparr>"
  from inv have fr: "frozen ?w3 (nextListeners w)" by (simp add: frozen_def store_inv_def)
  from m have len: "length (arrays ?w3 ! nextListeners w) \<le> 0 + m" by (simp add: registered_def)
  from notify_quiet_total [where env = env and n = n, OF q fr len] obtain r w' c where
    "notify (callFunction (Suc n) env) m (nextListeners w) 0 ?w3 = Some (r, w', c)" by blast
  then have "\<exists>r w' c. notifyListeners (callFunction (Suc n) env) m a ?w2 = Some (r, w', c)"
    by (cases r) (simp_all add: notifyListeners_def Let_def)
  with idle red show ?thesis by (simp add: dispatch_valid [OF va])
qed

subsection \<open>The examples, evaluated\<close>

lemmas demo_defs =
  dispatch_def notifyListeners_def replaceReducer_def createStore_def
  incAction_def initAction_def INIT_def
  counterStore_def listenersStore_def listenersStore1_def listenersStore2_def
  subscribingStore_def subscribingStore1_def
  isPlainObject_def getProp_def demoEnv_def quietEnv_def counterReducer_def arg_def Let_def
  subscribe_def unsubscribe_def ensureCanMutateNextListeners_def indexOf_def splice_def
  getState_def registered_def validAction_def

lemma demo_listenersStore:
  "snd (subscribe (VFun 8) (snd (subscribe (VFun 3) (snd (subscribe (VFun 2) counterStore)))))
     = listenersStore"
  by (simp add: demo_defs)

lemma demo_inv: "store_inv listenersStore"
  by (simp add: store_inv_def demo_defs)

lemma demo_dispatch1:
  "dispatch (callFunction (Suc 0) demoEnv) 3 incAction listenersStore
     = Some (Inr incAction, listenersStore1, [VFun 2, VFun 3, VFun 8])"
  by (simp add: demo_defs numeral_3_eq_3)

lemma demo_dispatch2:
  "dispatch (callFunction (Suc 0) demoEnv) 3 incAction listenersStore1
     = Some (Inr incAction, listenersStore2, [VFun 2, VFun 3, VFun 1])"
  by (simp add: demo_defs numeral_3_eq_3)

section \<open>Properties of the store\<close>

text \<open>
  C1. The listeners that a dispatch calls are those registered when its reducer
  returns (\<open>notification_calls_registered\<close>): \<^verbatim>\<open>currentListeners = nextListeners\<close> comes
  after the call of the reducer, and \<^verbatim>\<open>subscribe\<close> does not look at \<^verbatim>\<open>isDispatching\<close>.
  They are the listeners registered before the dispatch began when the reducer neither
  subscribes nor unsubscribes (\<open>quiet_reducer_calls_registered\<close>), and not in general.
  Here the store is the one that \<^verbatim>\<open>createStore\<close> returns for reducer 4, which subscribes
  listener 1 while it handles \<^verbatim>\<open>INC\<close>. No listener is registered when
  \<^verbatim>\<open>dispatch({type: 'INC'})\<close> begins, and the dispatch calls listener 1. The comment
  above \<^verbatim>\<open>subscribe\<close> says that the subscriptions are snapshotted just before every
  call of \<^verbatim>\<open>dispatch\<close>.
\<close>

theorem listener_subscribed_by_reducer_is_called:
  "createStore (callFunction (Suc 0) demoEnv) 0 (VFun 4) VUndefined VUndefined
     = Some (Inr (Store subscribingStore)) \<and>
   registered subscribingStore = [] \<and>
   dispatch (callFunction (Suc 0) demoEnv) (Suc 0) incAction subscribingStore
     = Some (Inr incAction, subscribingStore1, [VFun 1]) \<and>
   set [VFun 1] \<noteq> set (registered subscribingStore)"
  by (simp add: demo_defs)

text \<open>
  C2. A listener unsubscribed during the notification of a dispatch should not be
  called by the next dispatch. For the same reason as in C1 it can be, when the reducer
  of the next dispatch subscribes it. The store is that of reducer 4 again, with
  the listeners 8, 3 and 1 subscribed in this order. \<^verbatim>\<open>dispatch({type: 'NOP'})\<close> calls the
  three of them, and listener 3 unsubscribes listener 1 meanwhile: listener 1 is
  registered before this dispatch and is not after it. The next dispatch,
  \<^verbatim>\<open>dispatch({type: 'INC'})\<close>, calls listener 1 all the same: its reducer has subscribed
  listener 1 before the snapshot is taken.
\<close>

theorem unsubscribed_listener_is_called_again:
  "createStore (callFunction (Suc 0) demoEnv) 0 (VFun 4) VUndefined VUndefined
     = Some (Inr (Store subscribingStore)) \<and>
   snd (subscribe (VFun 1) (snd (subscribe (VFun 3) (snd (subscribe (VFun 8) subscribingStore)))))
     = resubscribingStore \<and>
   dispatch (callFunction (Suc 0) demoEnv) 3 nopAction resubscribingStore
     = Some (Inr nopAction, resubscribingStore1, [VFun 8, VFun 3, VFun 1]) \<and>
   VFun 1 \<in> set (registered resubscribingStore) \<and>
   VFun 1 \<notin> set (registered resubscribingStore1) \<and>
   dispatch (callFunction (Suc 0) demoEnv) 3 incAction resubscribingStore1
     = Some (Inr incAction, resubscribingStore2, [VFun 8, VFun 3, VFun 1]) \<and>
   VFun 1 \<in> set [VFun 8, VFun 3, VFun 1]"
  by (simp add: demo_defs resubscribingStore_def resubscribingStore1_def
      resubscribingStore2_def nopAction_def numeral_3_eq_3)

text \<open>
  C3. While the reducer runs (\<open>isDispatching\<close> is set), \<open>dispatch\<close> of an action it would
  accept fails with \<open>ReducersMayNotDispatch\<close> and leaves the store as it is. Whatever
  the outcome of a dispatch that began with the flag clear, the flag is clear when it
  ends: when the reducer throws, the dispatch throws the same exception with the flag
  cleared, so the next dispatch is not refused. When the reducer dispatches inside
  \<^verbatim>\<open>try\<close> and returns \<open>s\<close> once the inner dispatch has been refused, the outer dispatch
  goes on: the state is \<open>s\<close> and the listeners are notified; with none registered it
  returns the action.
\<close>

theorem reentrant_dispatch:
  "(isDispatching w \<and> validAction a \<longrightarrow>
      dispatch call m a w = Some (Inl ReducersMayNotDispatch, w, [])) \<and>
   (\<not> isDispatching w \<and> dispatch (callFunction n env) m a w = Some (r, w', called) \<longrightarrow>
      \<not> isDispatching w') \<and>
   (\<not> isDispatching w \<and> validAction a \<and>
    callFunction n env (currentReducer w) [currentState w, a] (w\<lparr>isDispatching := True\<rparr>)
      = Some (Inl e, w1) \<longrightarrow>
      dispatch (callFunction n env) m a w = Some (Inl e, w1\<lparr>isDispatching := False\<rparr>, [])) \<and>
   (\<not> isDispatching w \<and> validAction a \<and> validAction b \<and> currentReducer w = VFun i \<and>
    env i [currentState w, a] = TryCatch (Dispatch b k) handler \<and>
    handler (Inl ReducersMayNotDispatch) = Return s \<longrightarrow>
      dispatch (callFunction (Suc n) env) m a w
        = notifyListeners (callFunction (Suc n) env) m a (w\<lparr>currentState := s\<rparr>) \<and>
      (registered w = [] \<longrightarrow>
         dispatch (callFunction (Suc n) env) m a w
           = Some (Inr a, w\<lparr>currentState := s, currentListeners := nextListeners w\<rparr>, [])))"
proof (intro conjI impI)
  assume "isDispatching w \<and> validAction a"
  then show "dispatch call m a w = Some (Inl ReducersMayNotDispatch, w, [])"
    by (simp add: dispatch_valid)
next
  assume "\<not> isDispatching w \<and> dispatch (callFunction n env) m a w = Some (r, w', called)"
  with dispatch_flag [of n env m a w r w' called] show "\<not> isDispatching w'" by simp
next
  assume "\<not> isDispatching w \<and> validAction a \<and>
    callFunction n env (currentReducer w) [currentState w, a] (w\<lparr>isDispatching := True\<rparr>)
      = Some (Inl e, w1)"
  then show "dispatch (callFunction n env) m a w = Some (Inl e, w1\<lparr>isDispatching := False\<rparr>, [])"
    by (simp add: dispatch_valid)
next
  assume a: "\<not> isDispatching w \<and> validAction a \<and> validAction b \<and> currentReducer w = VFun i \<and>
    env i [currentState w, a] = TryCatch (Dispatch b k) handler \<and>
    handler (Inl ReducersMayNotDispatch) = Return s"
  then have "callFunction (Suc n) env (currentReducer w) [currentState w, a] (w\<lparr>isDispatching := True\<rparr>)
      = Some (Inr s, w\<lparr>isDispatching := True\<rparr>)"
    by (simp add: dispatch_valid)
  with a have d1: "dispatch (callFunction (Suc n) env) m a w
        = notifyListeners (callFunction (Suc n) env) m a (w\<lparr>currentState := s, isDispatching := False\<rparr>)"
    by (simp add: dispatch_valid)
  have e2: "w\<lparr>currentState := s, isDispatching := False\<rparr> = w\<lparr>currentState := s\<rparr>"
    using a by (cases w) simp
  from d1 show eq: "dispatch (callFunction (Suc n) env) m a w
        = notifyListeners (callFunction (Suc n) env) m a (w\<lparr>currentState := s\<rparr>)"
    by (simp only: e2)
  assume "registered w = []"
  with eq notifyListeners_empty [of "w\<lparr>currentState := s\<rparr>" "callFunction (Suc n) env" m a]
  show "dispatch (callFunction (Suc n) env) m a w
           = Some (Inr a, w\<lparr>currentState := s, currentListeners := nextListeners w\<rparr>, [])"
    by simp
qed

theorem reentrant_dispatch_witness:
  "dispatch (callFunction (Suc 0) demoEnv) 0 incAction (counterStore\<lparr>isDispatching := True\<rparr>)
     = Some (Inl ReducersMayNotDispatch, counterStore\<lparr>isDispatching := True\<rparr>, []) \<and>
   dispatch (callFunction (Suc 0) demoEnv) 0 incAction (counterStore\<lparr>currentReducer := VFun 6\<rparr>)
     = Some (Inl (Thrown (VStr ''boom'')), counterStore\<lparr>currentReducer := VFun 6\<rparr>, []) \<and>
   \<not> isDispatching (counterStore\<lparr>currentReducer := VFun 6\<rparr>) \<and>
   dispatch (callFunction (Suc 0) demoEnv) 0 initAction (counterStore\<lparr>currentReducer := VFun 6\<rparr>)
     = Some (Inr initAction, counterStore\<lparr>currentReducer := VFun 6\<rparr>, []) \<and>
   dispatch (callFunction (Suc 0) demoEnv) 0 incAction (counterStore\<lparr>currentReducer := VFun 5\<rparr>)
     = Some (Inr incAction, counterStore\<lparr>currentReducer := VFun 5, currentState := VNum 1\<rparr>, [])"
proof -
  let ?call = "callFunction (Suc 0) demoEnv"
  let ?wd = "counterStore\<lparr>isDispatching := True\<rparr>"
  let ?w6 = "counterStore\<lparr>currentReducer := VFun 6\<rparr>"
  let ?w5 = "counterStore\<lparr>currentReducer := VFun 5\<rparr>"
  let ?h = "\<lambda>r. case r of
                 Inl e \<Rightarrow> if e = ReducersMayNotDispatch
                          then counterReducer [VNum 0, incAction] else Throw e
               | Inr v \<Rightarrow> Return (VStr ''dispatched'')"
  have h1: "isDispatching ?wd \<and> validAction incAction" by (simp add: demo_defs)
  have h3: "\<not> isDispatching ?w6 \<and> validAction incAction \<and>
      callFunction (Suc 0) demoEnv (currentReducer ?w6) [currentState ?w6, incAction]
        (?w6\<lparr>isDispatching := True\<rparr>)
      = Some (Inl (Thrown (VStr ''boom'')), ?w6\<lparr>isDispatching := True\<rparr>)"
    by (simp add: demo_defs)
  have e5: "demoEnv 5 [currentState ?w5, incAction] = TryCatch (Dispatch incAction Return) ?h"
    by (simp add: demoEnv_def counterStore_def)
  have h4: "\<not> isDispatching ?w5 \<and> validAction incAction \<and> validAction incAction \<and>
      currentReducer ?w5 = VFun 5 \<and>
      demoEnv 5 [currentState ?w5, incAction] = TryCatch (Dispatch incAction Return) ?h \<and>
      ?h (Inl ReducersMayNotDispatch) = Return (VNum 1)"
    unfolding e5 by (simp add: demo_defs)
  from reentrant_dispatch [where w = ?wd and a = incAction and call = ?call and m = 0,
      THEN conjunct1, rule_format, OF h1]
  have t1: "dispatch ?call 0 incAction ?wd = Some (Inl ReducersMayNotDispatch, ?wd, [])" .
  from reentrant_dispatch [where w = ?w6 and a = incAction and n = "Suc 0" and env = demoEnv
      and m = 0 and e = "Thrown (VStr ''boom'')" and ?w1.0 = "?w6\<lparr>isDispatching := True\<rparr>",
      THEN conjunct2, THEN conjunct2, THEN conjunct1, rule_format, OF h3]
  have t3: "dispatch ?call 0 incAction ?w6 = Some (Inl (Thrown (VStr ''boom'')), ?w6, [])"
    by (simp add: counterStore_def)
  from reentrant_dispatch [where w = ?w6 and a = incAction and n = "Suc 0" and env = demoEnv
      and m = 0 and r = "Inl (Thrown (VStr ''boom''))" and w' = ?w6 and called = "[]",
      THEN conjunct2, THEN conjunct1, rule_format, OF conjI [OF _ t3]]
  have t2: "\<not> isDispatching ?w6" by (simp add: counterStore_def)
  have reg: "registered ?w5 = []" by (simp add: demo_defs)
  from reentrant_dispatch [where w = ?w5 and a = incAction and b = incAction and i = 5
      and env = demoEnv and k = Return and s = "VNum 1" and m = 0 and n = 0 and handler = ?h,
      THEN conjunct2, THEN conjunct2, THEN conjunct2, rule_format, OF h4,
      THEN conjunct2, rule_format, OF reg]
  have t4: "dispatch ?call 0 incAction ?w5
      = Some (Inr incAction, counterStore\<lparr>currentReducer := VFun 5, currentState := VNum 1\<rparr>, [])"
    by (simp add: counterStore_def)
  have t5: "dispatch ?call 0 initAction ?w6 = Some (Inr initAction, ?w6, [])"
    by (simp add: demo_defs)
  from t1 t2 t3 t4 t5 show ?thesis by simp
qed

text \<open>
  C7. Take a closure \<^verbatim>\<open>unsubscribe\<close> that has not been called yet, of listener \<open>l\<close>. Its
  first call removes one registration of \<open>l\<close>, the first in the array, and nothing
  else. A second call changes nothing, and neither does any later call, whatever
  program of calls to the store (subscribing \<open>l\<close> again, dispatching) has run in
  between. After a listener has been subscribed twice, calling either of the two
  closures returned leaves one of the two registrations.
\<close>

theorem unsubscribe_idempotent:
  assumes inv: "store_inv w"
    and h: "h < length (subscriptions w)"
    and l: "subscriptions w ! h = (l, True)"
  shows "l \<in> set (registered w) \<and>
         registered (unsubscribe h w) = remove1 l (registered w) \<and>
         unsubscribe h (unsubscribe h w) = unsubscribe h w \<and>
         (\<forall>n env m p r w'.
            exec (callFunction n env) m p (unsubscribe h w) = Some (r, w') \<longrightarrow>
            unsubscribe h w' = w') \<and>
         (\<forall>f. typeof f = ''function'' \<longrightarrow>
            (\<exists>h1 w1 h2 w2.
               subscribe f w = (Inr h1, w1) \<and> subscribe f w1 = (Inr h2, w2) \<and> h1 \<noteq> h2 \<and>
               mset (registered w2) = mset (registered w) + {#f, f#} \<and>
               mset (registered (unsubscribe h1 w2)) = mset (registered w) + {#f#} \<and>
               mset (registered (unsubscribe h2 w2)) = mset (registered w) + {#f#}))"
proof -
  let ?u = "unsubscribe h w"
  note u = unsubscribe_registered [OF inv h l]
  from u(2) h have sub: "subscriptions ?u ! h = (l, False)" by simp
  have later: "unsubscribe h w' = w'"
    if "exec (callFunction n env) m p ?u = Some (r, w')" for n env m p r w'
  proof -
    from exec_evolves [OF that] have ev: "evolves ?u w'" .
    from u(2) h have "h < length (subscriptions ?u)" by simp
    with ev sub have "fst (subscriptions w' ! h) = l" "\<not> snd (subscriptions w' ! h)"
      by (auto simp: evolves_def)
    then have "subscriptions w' ! h = (l, False)" by (cases "subscriptions w' ! h") simp
    then show ?thesis by (rule unsubscribe_done)
  qed
  from u(1,3) unsubscribe_done [OF sub] later subscribe_twice [OF inv] show ?thesis by blast
qed

theorem unsubscribe_idempotent_witness:
  "store_inv listenersStore \<and>
   2 < length (subscriptions listenersStore) \<and>
   subscriptions listenersStore ! 2 = (VFun 8, True) \<and>
   VFun 8 \<in> set (registered listenersStore) \<and>
   registered (unsubscribe 2 listenersStore) = [VFun 2, VFun 3] \<and>
   unsubscribe 2 (unsubscribe 2 listenersStore) = unsubscribe 2 listenersStore \<and>
   registered (snd (subscribe (VFun 8) (unsubscribe 2 listenersStore))) = [VFun 2, VFun 3, VFun 8] \<and>
   unsubscribe 2 (snd (subscribe (VFun 8) (unsubscribe 2 listenersStore)))
     = snd (subscribe (VFun 8) (unsubscribe 2 listenersStore))"
proof -
  let ?u = "unsubscribe 2 listenersStore"
  have h: "2 < length (subscriptions listenersStore)"
    and l: "subscriptions listenersStore ! 2 = (VFun 8, True)"
    by (simp_all add: listenersStore_def)
  have reg: "registered listenersStore = [VFun 2, VFun 3, VFun 8]"
    by (simp add: listenersStore_def registered_def)
  have again: "registered (snd (subscribe (VFun 8) ?u)) = [VFun 2, VFun 3, VFun 8]"
    by (simp add: demo_defs)
  have run: "exec (callFunction 0 demoEnv) 0 (Subscribe (VFun 8) (\<lambda>h. Return VUndefined)) ?u
      = Some (Inr VUndefined, snd (subscribe (VFun 8) ?u))"
    by (simp add: subscribe_def Let_def)
  note t = unsubscribe_idempotent [OF demo_inv h l]
  from t have m: "VFun 8 \<in> set (registered listenersStore)" by blast
  from t reg have r: "registered ?u = [VFun 2, VFun 3]" by simp
  from t have i: "unsubscribe 2 ?u = ?u" by blast
  from t run have k: "unsubscribe 2 (snd (subscribe (VFun 8) ?u)) = snd (subscribe (VFun 8) ?u)"
    by blast
  from demo_inv h l m r i again k show ?thesis by blast
qed

text \<open>
  C8. \<open>replaceReducer\<close> fails with \<open>NextReducerNotFunction\<close> when its argument is not a
  function, and leaves the store as it is. Otherwise, on a store that is not
  dispatching and for a reducer that returns \<open>s\<close> on the prior state and the \<^verbatim>\<open>INIT\<close>
  action, it installs the reducer, sets the state to \<open>s\<close> and notifies the listeners,
  with no further call from the caller. With no listener registered it returns; and
  whenever it ends and no listener dispatches, \<open>getState\<close> gives \<open>s\<close> and the new
  reducer is the current one.
\<close>

theorem replaceReducer_installs:
  "(typeof nr \<noteq> ''function'' \<longrightarrow>
      replaceReducer call m nr w = Some (Inl NextReducerNotFunction, w)) \<and>
   (\<not> isDispatching w \<and> nr = VFun i \<and> env i [currentState w, initAction] = Return s \<longrightarrow>
      replaceReducer (callFunction (Suc n) env) m nr w =
        (case notifyListeners (callFunction (Suc n) env) m initAction
                (w\<lparr>currentReducer := nr, currentState := s\<rparr>) of
           None \<Rightarrow> None
         | Some (Inl e, w', c) \<Rightarrow> Some (Inl e, w')
         | Some (Inr v, w', c) \<Rightarrow> Some (Inr VUndefined, w')) \<and>
      (registered w = [] \<longrightarrow>
         replaceReducer (callFunction (Suc n) env) m nr w
           = Some (Inr VUndefined,
                   w\<lparr>currentReducer := nr, currentState := s,
                      currentListeners := nextListeners w\<rparr>)) \<and>
      ((\<forall>j. noDispatch (env j [])) \<and>
       replaceReducer (callFunction (Suc n) env) m nr w = Some (r, w') \<longrightarrow>
         getState w' = s \<and> currentReducer w' = nr))"
proof (intro conjI impI)
  assume "typeof nr \<noteq> ''function''"
  then show "replaceReducer call m nr w = Some (Inl NextReducerNotFunction, w)"
    by (simp add: replaceReducer_def)
next
  assume a: "\<not> isDispatching w \<and> nr = VFun i \<and> env i [currentState w, initAction] = Return s"
  then have nr: "nr = VFun i" by simp
  from a replaceReducer_pure [of w env i s n m]
  show eq: "replaceReducer (callFunction (Suc n) env) m nr w =
        (case notifyListeners (callFunction (Suc n) env) m initAction
                (w\<lparr>currentReducer := nr, currentState := s\<rparr>) of
           None \<Rightarrow> None
         | Some (Inl e, w', c) \<Rightarrow> Some (Inl e, w')
         | Some (Inr v, w', c) \<Rightarrow> Some (Inr VUndefined, w'))"
    by simp
  {
    assume "registered w = []"
    with eq notifyListeners_empty [of "w\<lparr>currentReducer := nr, currentState := s\<rparr>" "callFunction (Suc n) env" m initAction]
    show "replaceReducer (callFunction (Suc n) env) m nr w
           = Some (Inr VUndefined,
                   w\<lparr>currentReducer := nr, currentState := s,
                      currentListeners := nextListeners w\<rparr>)"
      by simp
  next
    assume q: "(\<forall>j. noDispatch (env j [])) \<and>
       replaceReducer (callFunction (Suc n) env) m nr w = Some (r, w')"
    with eq obtain r2 c where
      "notifyListeners (callFunction (Suc n) env) m initAction
         (w\<lparr>currentReducer := nr, currentState := s\<rparr>) = Some (r2, w', c)"
      by (auto split: option.splits sum.splits)
    from notifyListeners_quiet [OF _ this] q
    show "getState w' = s" "currentReducer w' = nr" by (simp_all add: getState_def)
  }
qed

theorem replaceReducer_installs_witness:
  "replaceReducer (callFunction (Suc 0) quietEnv) 3 (VNum 3) listenersStore
     = Some (Inl NextReducerNotFunction, listenersStore) \<and>
   \<not> isDispatching listenersStore \<and>
   quietEnv 9 [currentState listenersStore, initAction] = Return (VNum 100) \<and>
   registered counterStore = [] \<and>
   replaceReducer (callFunction (Suc 0) quietEnv) 3 (VFun 9) counterStore
     = Some (Inr VUndefined, counterStore\<lparr>currentReducer := VFun 9, currentState := VNum 100\<rparr>) \<and>
   replaceReducer (callFunction (Suc 0) quietEnv) 3 (VFun 9) listenersStore
     = Some (Inr VUndefined, listenersStore1\<lparr>currentReducer := VFun 9, currentState := VNum 100\<rparr>) \<and>
   getState (listenersStore1\<lparr>currentReducer := VFun 9, currentState := VNum 100\<rparr>) = VNum 100"
proof -
  let ?w' = "listenersStore1\<lparr>currentReducer := VFun 9, currentState := VNum 100\<rparr>"
  have q: "\<forall>j. noDispatch (quietEnv j [])"
    by (simp add: quietEnv_def demoEnv_def counterReducer_def arg_def getProp_def)
  have r: "replaceReducer (callFunction (Suc 0) quietEnv) 3 (VFun 9) listenersStore
     = Some (Inr VUndefined, ?w')"
    by (simp add: demo_defs numeral_3_eq_3)
  have h1: "\<not> isDispatching listenersStore \<and> VFun 9 = VFun 9 \<and>
      quietEnv 9 [currentState listenersStore, initAction] = Return (VNum 100)"
    by (simp add: demo_defs)
  have h2: "\<not> isDispatching counterStore \<and> VFun 9 = VFun 9 \<and>
      quietEnv 9 [currentState counterStore, initAction] = Return (VNum 100)"
    by (simp add: demo_defs)
  have e: "typeof (VNum 3) \<noteq> ''function''" by simp
  note t1 = replaceReducer_installs [where nr = "VNum 3" and call = "callFunction (Suc 0) quietEnv"
        and m = 3 and w = listenersStore, THEN conjunct1, rule_format, OF e]
  note t2 = replaceReducer_installs [where nr = "VFun 9" and i = 9 and env = quietEnv and n = 0
        and m = 3 and w = listenersStore and s = "VNum 100" and r = "Inr VUndefined" and w' = ?w',
        THEN conjunct2, rule_format, OF h1]
  note t3 = replaceReducer_installs [where nr = "VFun 9" and i = 9 and env = quietEnv and n = 0
        and m = 3 and w = counterStore and s = "VNum 100",
        THEN conjunct2, rule_format, OF h2]
  have c: "registered counterStore = []" by (simp add: demo_defs)
  from t2 [THEN conjunct2, THEN conjunct2, rule_format, OF conjI [OF q r]]
  have g: "getState ?w' = VNum 100" by simp
  from t3 [THEN conjunct2, THEN conjunct1, rule_format, OF c]
  have r0: "replaceReducer (callFunction (Suc 0) quietEnv) 3 (VFun 9) counterStore
     = Some (Inr VUndefined, counterStore\<lparr>currentReducer := VFun 9, currentState := VNum 100\<rparr>)"
    by (simp add: counterStore_def)
  from t1 h1 c r0 r g show ?thesis by simp
qed

text \<open>
  C9. \<^verbatim>\<open>createStore(counterReducer)\<close>, with no preloaded state and no enhancer, returns a
  store whose state is 0: the \<^verbatim>\<open>INIT\<close> action it dispatches gives the reducer
  \<^verbatim>\<open>undefined\<close>, and the reducer answers with its default. On that store
  \<^verbatim>\<open>dispatch({type: 'INC'})\<close> returns the action it was given and the state is 1.
\<close>

theorem counter_store:
  "createStore (callFunction (Suc n) demoEnv) m (VFun 0) VUndefined VUndefined
     = Some (Inr (Store counterStore)) \<and>
   getState counterStore = VNum 0 \<and>
   dispatch (callFunction (Suc n) demoEnv) m incAction counterStore
     = Some (Inr incAction, counterStore\<lparr>currentState := VNum 1\<rparr>, []) \<and>
   getState (counterStore\<lparr>currentState := VNum 1\<rparr>) = VNum 1"
  by (cases m) (simp_all add: demo_defs)

theorem counter_store_witness:
  "createStore (callFunction (Suc 0) demoEnv) 0 (VFun 0) VUndefined VUndefined
     = Some (Inr (Store counterStore)) \<and>
   dispatch (callFunction (Suc 0) demoEnv) 0 incAction counterStore
     = Some (Inr incAction, counterStore\<lparr>currentState := VNum 1\<rparr>, [])"
  using counter_store [of 0 0] by simp

text \<open>
  C10. While the flag \<open>isDispatching\<close> is set, that is while a reducer runs, a body
  behaves as the body in which every call of \<^verbatim>\<open>getState\<close> is replaced by the state the
  store had when the reducer was called: \<^verbatim>\<open>getState\<close> gives the state from before the
  dispatch. When the reducer ends, \<open>currentState\<close> still holds that state. If the
  reducer has thrown, the dispatch ends there, with the exception and the state
  unchanged; if it has returned \<open>s\<close>, the state is set to \<open>s\<close> only then, before the
  listeners are notified.
\<close>

theorem state_during_reducer:
  "(isDispatching w \<longrightarrow> exec call m p w = exec call m (withState (currentState w) p) w) \<and>
   (\<not> isDispatching w \<and> validAction a \<and>
    callFunction n env (currentReducer w) [currentState w, a] (w\<lparr>isDispatching := True\<rparr>)
      = Some (r1, w1) \<longrightarrow>
      currentState w1 = currentState w \<and>
      (\<forall>e. r1 = Inl e \<longrightarrow>
         dispatch (callFunction n env) m a w = Some (Inl e, w1\<lparr>isDispatching := False\<rparr>, []) \<and>
         currentState (w1\<lparr>isDispatching := False\<rparr>) = currentState w) \<and>
      (\<forall>s. r1 = Inr s \<longrightarrow>
         dispatch (callFunction n env) m a w
           = notifyListeners (callFunction n env) m a
               (w1\<lparr>currentState := s, isDispatching := False\<rparr>)))"
proof (intro conjI impI)
  assume "isDispatching w"
  then show "exec call m p w = exec call m (withState (currentState w) p) w"
    by (simp add: exec_withState)
next
  assume a: "\<not> isDispatching w \<and> validAction a \<and>
    callFunction n env (currentReducer w) [currentState w, a] (w\<lparr>isDispatching := True\<rparr>)
      = Some (r1, w1)"
  then have c: "callFunction n env (currentReducer w) [currentState w, a] (w\<lparr>isDispatching := True\<rparr>)
      = Some (r1, w1)" by simp
  from callFunction_while_dispatching [OF _ c] show s: "currentState w1 = currentState w" by simp
  from a s show "\<forall>e. r1 = Inl e \<longrightarrow>
         dispatch (callFunction n env) m a w = Some (Inl e, w1\<lparr>isDispatching := False\<rparr>, []) \<and>
         currentState (w1\<lparr>isDispatching := False\<rparr>) = currentState w"
    by (simp add: dispatch_valid)
  from a show "\<forall>s. r1 = Inr s \<longrightarrow>
         dispatch (callFunction n env) m a w
           = notifyListeners (callFunction n env) m a
               (w1\<lparr>currentState := s, isDispatching := False\<rparr>)"
    by (simp add: dispatch_valid)
qed

theorem state_during_reducer_witness:
  "isDispatching (counterStore\<lparr>isDispatching := True\<rparr>) \<and>
   exec (callFunction 0 demoEnv) 0 (demoEnv 7 [VNum 0, incAction])
     (counterStore\<lparr>isDispatching := True\<rparr>)
     = Some (Inr (VNum 10), counterStore\<lparr>isDispatching := True\<rparr>) \<and>
   dispatch (callFunction (Suc 0) demoEnv) 0 incAction (counterStore\<lparr>currentReducer := VFun 7\<rparr>)
     = Some (Inr incAction, counterStore\<lparr>currentReducer := VFun 7, currentState := VNum 10\<rparr>, []) \<and>
   dispatch (callFunction (Suc 0) demoEnv) 0 incAction (counterStore\<lparr>currentReducer := VFun 6\<rparr>)
     = Some (Inl (Thrown (VStr ''boom'')), counterStore\<lparr>currentReducer := VFun 6\<rparr>, []) \<and>
   currentState (counterStore\<lparr>currentReducer := VFun 6\<rparr>) = VNum 0"
proof -
  let ?w6 = "counterStore\<lparr>currentReducer := VFun 6\<rparr>"
  let ?w7 = "counterStore\<lparr>currentReducer := VFun 7\<rparr>"
  have v: "validAction incAction" by (simp add: demo_defs)
  have t6: "callFunction (Suc 0) demoEnv (currentReducer ?w6) [currentState ?w6, incAction]
      (?w6\<lparr>isDispatching := True\<rparr>) = Some (Inl (Thrown (VStr ''boom'')), ?w6\<lparr>isDispatching := True\<rparr>)"
    by (simp add: demo_defs)
  have t7: "callFunction (Suc 0) demoEnv (currentReducer ?w7) [currentState ?w7, incAction]
      (?w7\<lparr>isDispatching := True\<rparr>) = Some (Inr (VNum 10), ?w7\<lparr>isDispatching := True\<rparr>)"
    by (simp add: demo_defs)
  from state_during_reducer [where w = "counterStore\<lparr>isDispatching := True\<rparr>"
        and call = "callFunction 0 demoEnv" and m = 0 and p = "demoEnv 7 [VNum 0, incAction]"]
    state_during_reducer [where w = ?w6 and a = incAction and n = "Suc 0" and env = demoEnv
        and m = 0 and ?r1.0 = "Inl (Thrown (VStr ''boom''))" and ?w1.0 = "?w6\<lparr>isDispatching := True\<rparr>"]
    state_during_reducer [where w = ?w7 and a = incAction and n = "Suc 0" and env = demoEnv
        and m = 0 and ?r1.0 = "Inr (VNum 10)" and ?w1.0 = "?w7\<lparr>isDispatching := True\<rparr>"]
    v t6 t7
  show ?thesis by (simp add: demo_defs)
qed

text \<open>
  C4. A value that is not a plain object makes \<open>dispatch\<close> fail with
  \<open>ActionNotPlainObject\<close>, and a plain object whose \<^verbatim>\<open>type\<close> is \<^verbatim>\<open>undefined\<close> with
  \<open>ActionTypeUndefined\<close>. In both cases the store returned is the store given, so the
  state is unchanged, and no listener has been called: the list of called listeners
  is empty, and the result does not depend on how functions are called.
\<close>

theorem dispatch_rejects_invalid_action:
  "(\<not> isPlainObject a \<longrightarrow> dispatch call m a w = Some (Inl ActionNotPlainObject, w, [])) \<and>
   (isPlainObject a \<and> getProp a ''type'' = Inr VUndefined \<longrightarrow>
      dispatch call m a w = Some (Inl ActionTypeUndefined, w, []))"
  by (simp add: dispatch_def)

theorem dispatch_rejects_invalid_action_witness:
  "dispatch (callFunction 1 demoEnv) 1 (VNum 3) counterStore
     = Some (Inl ActionNotPlainObject, counterStore, []) \<and>
   dispatch (callFunction 1 demoEnv) 1 (VObj 2 [(''payload'', VNum 3)]) counterStore
     = Some (Inl ActionTypeUndefined, counterStore, [])"
  using dispatch_rejects_invalid_action [of "VNum 3" "callFunction 1 demoEnv" 1 counterStore]
    dispatch_rejects_invalid_action [of "VObj 2 [(''payload'', VNum 3)]" "callFunction 1 demoEnv" 1 counterStore]
  by (simp add: isPlainObject_def getProp_def)

section \<open>Properties of the reducer composer\<close>

lemma update_fresh: "k \<notin> fst ` set al \<Longrightarrow> AList.update k v al = al @ [(k, v)]"
  by (induction al) auto

lemma lookup_distinct:
  "distinct (map fst rs) \<Longrightarrow> (k, v) \<in> set rs \<Longrightarrow> lookup rs k = v"
  by (simp add: lookup_def)

lemma finalLoop_distinct:
  "distinct (map fst acc) \<Longrightarrow> distinct (map fst (finalLoop reducers keys acc))"
  by (induction keys arbitrary: acc) (simp_all add: distinct_update)

lemma finalReducerKeys_distinct:
  "finalReducerKeys (combineReducers renv rnd reducers)
     = map fst (finalReducers (combineReducers renv rnd reducers))"
  "distinct (finalReducerKeys (combineReducers renv rnd reducers))"
  by (simp_all add: combineReducers_def Let_def finalLoop_distinct)

lemma finalLoop_filter:
  assumes "distinct (map fst (pre @ rest))"
  shows "finalLoop (pre @ rest) (map fst rest)
           (filter (\<lambda>(k, v). typeof v = ''function'' \<and> k \<noteq> ''__proto__'') pre)
     = filter (\<lambda>(k, v). typeof v = ''function'' \<and> k \<noteq> ''__proto__'') (pre @ rest)"
  using assms
proof (induction rest arbitrary: pre)
  case Nil
  then show ?case by simp
next
  case (Cons x rest)
  obtain k v where x: "x = (k, v)" by (cases x)
  let ?P = "\<lambda>(k, v). typeof v = ''function'' \<and> k \<noteq> ''__proto__''"
  from Cons.prems x have l: "lookup (pre @ x # rest) k = v"
    by (intro lookup_distinct) auto
  from Cons.prems x have "k \<notin> fst ` set (filter ?P pre)" by auto
  then have u: "AList.update k v (filter ?P pre) = filter ?P pre @ [(k, v)]"
    by (rule update_fresh)
  from Cons.prems have d: "distinct (map fst ((pre @ [x]) @ rest))" by simp
  from Cons.IH [OF d] x l u show ?case
    by (cases "typeof v = ''function''"; cases "k = ''__proto__''") simp_all
qed

lemma combineReducers_finals:
  assumes "distinct (map fst reducers)"
  shows "finalReducers (combineReducers renv rnd reducers)
       = filter (\<lambda>(k, v). typeof v = ''function'' \<and> k \<noteq> ''__proto__'') reducers"
  using finalLoop_filter [of "[]" reducers] assms
  by (simp add: combineReducers_def Let_def)

lemma combineLoop_mono:
  "combineLoop rt renv finals keys state action hc ns = Inr (hc', ns') \<Longrightarrow> hc \<Longrightarrow> hc'"
proof (induction keys arbitrary: hc ns)
  case Nil
  then show ?case by simp
next
  case (Cons key keys)
  from Cons.prems(1) obtain b ns1 where
    "combineLoop rt renv finals keys state action (hc \<or> b) ns1 = Inr (hc', ns')"
    by (auto simp: Let_def split: sum.splits if_splits)
  from Cons.IH [OF this] Cons.prems(2) show ?case by simp
qed

lemma combineLoop_result:
  assumes "combineLoop rt renv finals keys state action hc ns = Inr (hc', ns')"
    and "distinct keys" and "set keys \<inter> fst ` set ns = {}"
  shows "\<exists>vs. length vs = length keys \<and> ns' = ns @ zip keys vs \<and>
           (\<forall>j<length keys. \<exists>p.
              getMember rt state (keys ! j) = Inr p \<and>
              callReducer renv (lookup finals (keys ! j)) p action = Inr (vs ! j) \<and>
              vs ! j \<noteq> VUndefined \<and>
              (\<not> strict_eq (vs ! j) p \<longrightarrow> hc')) \<and>
           (hc' \<longrightarrow> hc \<or> (\<exists>j<length keys. \<exists>p. getMember rt state (keys ! j) = Inr p \<and>
               \<not> strict_eq (vs ! j) p))"
  using assms
proof (induction keys arbitrary: hc ns)
  case Nil
  then show ?case by simp
next
  case (Cons key keys)
  from Cons.prems(1) obtain p where p: "getMember rt state key = Inr p"
    by (cases "getMember rt state key") (simp_all add: Let_def)
  from Cons.prems(1) p obtain v where v: "callReducer renv (lookup finals key) p action = Inr v"
    by (cases "callReducer renv (lookup finals key) p action") (simp_all add: Let_def)
  from Cons.prems(1) p v have nu: "v \<noteq> VUndefined"
    by (auto simp: Let_def split: if_splits sum.splits)
  from Cons.prems(3) have u: "AList.update key v ns = ns @ [(key, v)]"
    by (intro update_fresh) auto
  from Cons.prems(1) p v nu
  have l: "combineLoop rt renv finals keys state action (hc \<or> \<not> strict_eq v p) (ns @ [(key, v)]) = Inr (hc', ns')"
    by (simp add: Let_def u typeof_undefined)
  from Cons.prems(2,3) have d: "distinct keys" "set keys \<inter> fst ` set (ns @ [(key, v)]) = {}"
    by auto
  from Cons.IH [OF l d] obtain vs where vs:
    "length vs = length keys" "ns' = (ns @ [(key, v)]) @ zip keys vs"
    "\<forall>j<length keys. \<exists>p.
              getMember rt state (keys ! j) = Inr p \<and>
              callReducer renv (lookup finals (keys ! j)) p action = Inr (vs ! j) \<and>
              vs ! j \<noteq> VUndefined \<and>
              (\<not> strict_eq (vs ! j) p \<longrightarrow> hc')"
    "hc' \<longrightarrow> (hc \<or> \<not> strict_eq v p) \<or> (\<exists>j<length keys. \<exists>p. getMember rt state (keys ! j) = Inr p \<and>
               \<not> strict_eq (vs ! j) p)"
    by blast
  have mono: "hc \<or> \<not> strict_eq v p \<longrightarrow> hc'"
    using combineLoop_mono [OF l] by blast
  show ?case
  proof (intro exI [of _ "v # vs"] conjI allI impI)
    show "length (v # vs) = length (key # keys)" using vs(1) by simp
    show "ns' = ns @ zip (key # keys) (v # vs)" using vs(2) by simp
  next
    fix j assume "j < length (key # keys)"
    then show "\<exists>p. getMember rt state ((key # keys) ! j) = Inr p \<and>
              callReducer renv (lookup finals ((key # keys) ! j)) p action = Inr ((v # vs) ! j) \<and>
              (v # vs) ! j \<noteq> VUndefined \<and>
              (\<not> strict_eq ((v # vs) ! j) p \<longrightarrow> hc')"
      using p v nu mono vs(3) by (cases j) auto
  next
    assume "hc'"
    with vs(4) consider "hc" | "\<not> strict_eq v p" | j where "j < length keys"
      "\<exists>p. getMember rt state (keys ! j) = Inr p \<and> \<not> strict_eq (vs ! j) p" by blast
    then show "hc \<or> (\<exists>j<length (key # keys). \<exists>p. getMember rt state ((key # keys) ! j) = Inr p \<and>
               \<not> strict_eq ((v # vs) ! j) p)"
    proof cases
      case 1
      then show ?thesis by simp
    next
      case 2
      with p show ?thesis by (intro disjI2 exI [of _ 0]) simp
    next
      case 3
      then show ?thesis by (intro disjI2 exI [of _ "Suc j"]) simp
    qed
  qed
qed

lemma sanityLoop_first:
  assumes "\<forall>k\<in>set pre. probeReducer renv rnd finals k = Inr ()"
    and "probeReducer renv rnd finals key = Inl e"
  shows "sanityLoop renv rnd finals (pre @ key # post) = Inl e"
  using assms by (induction pre) simp_all

lemma sanityError_first_failure:
  assumes c: "c = combineReducers renv rnd reducers"
    and keys: "finalReducerKeys c = pre @ key # post"
    and pre: "\<forall>k\<in>set pre. probeReducer renv rnd (finalReducers c) k = Inr ()"
    and probe: "probeReducer renv rnd (finalReducers c) key = Inl e"
  shows "sanityError c = Some e"
proof -
  from keys have k: "map fst (finalReducers c) = pre @ key # post"
    unfolding c by (simp add: combineReducers_def Let_def)
  from sanityLoop_first [OF pre probe, of post] k
  have "assertReducerSanity renv rnd (finalReducers c) = Inl e"
    by (simp add: assertReducerSanity_def)
  then show ?thesis unfolding c by (simp add: combineReducers_def Let_def)
qed

lemma combination_sanity:
  assumes "sanityError c = Some e" "truthyError e"
  shows "fst (combination rt renv c state action ref) = Inl e"
  using assms by (simp add: combination_def Let_def)

lemma probeType_not_INIT: "probeType r \<noteq> INIT"
  by (simp add: probeType_def INIT_def)

lemma probeAction_type:
  "getProp (probeAction r) ''type'' = Inr (VStr (probeType r))"
  by (simp add: probeAction_def getProp_def)

lemmas combine_defs =
  combineReducers_def combination_def assertReducerSanity_def probeReducer_def
  callReducer_def lookup_def probeAction_def probeType_def truthyError_def
  getUnexpectedStateShapeWarningMessage_def ownKeys_def isPlainObject_def getMember_def
  getUndefinedStateErrorMessage_def
  demoRenv_def demoRnd_def demoRuntime_def
  demoReducers_def brokenReducers_def pickyReducers_def demoState_def nopAction_def
  incAction_def initAction_def INIT_def getProp_def Let_def

text \<open>
  The examples, evaluated.
  \<^item> A slice named \<^verbatim>\<open>constructor\<close> reads the function that the default \<^verbatim>\<open>{}\<close> inherits,
    and its reducer returns it as it is: no slice has changed.
  \<^item> A slice named \<^verbatim>\<open>hasOwnProperty\<close> has its reducer called by the check of the state's
    keys, with no action: the counter throws there, and does not in production mode.
  \<^item> A property \<^verbatim>\<open>__proto__\<close> never becomes a slice.
  \<^item> A slice reducer that returns \<^verbatim>\<open>undefined\<close> for an action of the caller.
  \<^item> Reducers that throw when probed: the value thrown is kept in place of a sanity
    error, the probes end there, and the combined reducer throws it again only if it
    is true.
  \<^item> A state whose class has no name makes the check of the state throw.
\<close>

lemma demo_inherited_slice:
  "combination demoRuntime demoRenv
       (combineReducers demoRenv demoRnd [(''constructor'', VFun 0)]) VUndefined nopAction 30
     = (Inr (VObj 30 []), 32)"
  by (simp add: combine_defs)

lemma demo_hasOwnProperty_slice:
  "combination demoRuntime demoRenv
       (combineReducers demoRenv demoRnd [(''hasOwnProperty'', VFun 0)])
       (VObj 20 [(''a'', VNum 1)]) nopAction 30
     = (Inl TypeError, 30)"
  "combination (demoRuntime\<lparr>production := True\<rparr>) demoRenv
       (combineReducers demoRenv demoRnd [(''hasOwnProperty'', VFun 0)])
       (VObj 20 [(''a'', VNum 1)]) nopAction 30
     = (Inr (VObj 20 [(''a'', VNum 1)]), 31)"
  by (simp_all add: combine_defs)

lemma demo_proto_key:
  "finalReducerKeys (combineReducers demoRenv demoRnd [(''__proto__'', VFun 0), (''count'', VFun 0)])
     = [''count'']"
  by (simp add: combine_defs)

lemma demo_undefined_slice:
  "combination demoRuntime demoRenv
       (combineReducers demoRenv demoRnd [(''count'', VFun 0), (''late'', VFun 5)])
       VUndefined incAction 30
     = (Inl (UndefinedSliceState ''late'' ''\"INC\"''), 32)"
  by (simp add: combine_defs)

lemma demo_thrown_probe:
  "sanityError (combineReducers demoRenv demoRnd [(''thrower'', VFun 4), (''broken'', VFun 2)])
     = Some (Thrown (VStr ''boom''))"
  "combination demoRuntime demoRenv
       (combineReducers demoRenv demoRnd [(''thrower'', VFun 4), (''broken'', VFun 2)])
       demoState nopAction 30
     = (Inl (Thrown (VStr ''boom'')), 30)"
  "sanityError (combineReducers demoRenv demoRnd [(''count'', VFun 6)])
     = Some (Thrown (VNum 0))"
  "combination demoRuntime demoRenv (combineReducers demoRenv demoRnd [(''count'', VFun 6)])
       demoState nopAction 30
     = (Inr demoState, 31)"
  by (simp_all add: combine_defs)

lemma demo_state_without_class_name:
  "combination demoRuntime demoRenv (combineReducers demoRenv demoRnd demoReducers) (VInst 7)
       nopAction 30
     = (Inl TypeError, 30)"
  by (simp add: combine_defs)

text \<open>
  C5. Take a combined reducer made by \<open>combineReducers\<close> and a call of it that returns.
  \<open>state\<close> is the parameter of the call, as \<^verbatim>\<open>combination(state = {}, action)\<close> declares
  it: the argument, or the new empty object that stands for an argument \<^verbatim>\<open>undefined\<close>.
  Each slice key has a previous value \<open>ps ! j\<close>, which is \<^verbatim>\<open>state[key]\<close>, and a next value
  \<open>vs ! j\<close>, returned by its reducer. If every next value is identical (\<^verbatim>\<open>===\<close>) to the
  previous one, the result is \<open>state\<close> itself, and the combined reducer applied again
  to the result, with the same action, returns it again; otherwise the result is a
  new object, with the tag of the next object to be created, that holds every slice
  key with its next value.
\<close>

theorem combination_result:
  assumes c: "c = combineReducers renv rnd reducers"
    and st: "state = (if state0 = VUndefined then VObj ref [] else state0)"
    and nx: "fresh = (if state0 = VUndefined then ref + 1 else ref)"
    and ok: "combination rt renv c state0 action ref = (Inr result, ref')"
  shows "\<exists>ps vs.
     length ps = length (finalReducerKeys c) \<and> length vs = length (finalReducerKeys c) \<and>
     (\<forall>j<length (finalReducerKeys c).
        getMember rt state (finalReducerKeys c ! j) = Inr (ps ! j) \<and>
        callReducer renv (lookup (finalReducers c) (finalReducerKeys c ! j)) (ps ! j) action
          = Inr (vs ! j)) \<and>
     (if \<forall>j<length (finalReducerKeys c). strict_eq (vs ! j) (ps ! j)
      then result = state \<and> fst (combination rt renv c result action ref') = Inr result
      else result = VObj fresh (zip (finalReducerKeys c) vs))"
proof -
  let ?keys = "finalReducerKeys c"
  let ?n = "length ?keys"
  have dk: "distinct ?keys" unfolding c by (rule finalReducerKeys_distinct(2))
  define check where "check s = (if production rt then Inr ()
       else getUnexpectedStateShapeWarningMessage rt renv s (finalReducers c))" for s :: val
  define body where "body s r = (case check s of
         Inl e \<Rightarrow> (Inl e, r)
       | Inr warned \<Rightarrow>
           (case combineLoop rt renv (finalReducers c) ?keys s action False [] of
              Inl e \<Rightarrow> (Inl e, r + 1)
            | Inr (hasChanged, nextState) \<Rightarrow>
                (Inr (if hasChanged then VObj r nextState else s), r + 1)))" for s :: val and r :: nat
  have comb: "combination rt renv c s0 action r =
      (let s = (if s0 = VUndefined then VObj r [] else s0);
           r1 = (if s0 = VUndefined then r + 1 else r)
       in case sanityError c of None \<Rightarrow> body s r1
          | Some e \<Rightarrow> if truthyError e then (Inl e, r1) else body s r1)" for s0 r
    by (auto simp: combination_def body_def check_def Let_def split: option.splits sum.splits)
  have quiet: "sanityError c = None \<or> (\<exists>e. sanityError c = Some e \<and> \<not> truthyError e)"
    using ok unfolding comb by (auto simp: Let_def split: option.splits if_splits)
  then have run: "combination rt renv c s0 action r =
      body (if s0 = VUndefined then VObj r [] else s0) (if s0 = VUndefined then r + 1 else r)" for s0 r
    unfolding comb by (auto simp: Let_def)
  from ok have b: "body state fresh = (Inr result, ref')" unfolding run st nx .
  then obtain u where chk: "check state = Inr u"
    by (cases "check state") (simp_all add: body_def)
  with b obtain hc ns where
    loop: "combineLoop rt renv (finalReducers c) ?keys state action False [] = Inr (hc, ns)"
    and res: "result = (if hc then VObj fresh ns else state)"
    by (auto simp: body_def split: sum.splits prod.splits)
  from combineLoop_result [OF loop dk] obtain vs where vs:
    "length vs = ?n" "ns = zip ?keys vs"
    "\<forall>j<?n. \<exists>p. getMember rt state (?keys ! j) = Inr p \<and>
         callReducer renv (lookup (finalReducers c) (?keys ! j)) p action = Inr (vs ! j) \<and>
         vs ! j \<noteq> VUndefined \<and> (\<not> strict_eq (vs ! j) p \<longrightarrow> hc)"
    "hc \<longrightarrow> (\<exists>j<?n. \<exists>p. getMember rt state (?keys ! j) = Inr p \<and> \<not> strict_eq (vs ! j) p)"
    by auto
  from vs(3) obtain f where f:
    "\<forall>j<?n. getMember rt state (?keys ! j) = Inr (f j) \<and>
         callReducer renv (lookup (finalReducers c) (?keys ! j)) (f j) action = Inr (vs ! j) \<and>
         (\<not> strict_eq (vs ! j) (f j) \<longrightarrow> hc)"
    by metis
  define ps where "ps = map f [0..<?n]"
  have ps: "length ps = ?n" "\<And>j. j < ?n \<Longrightarrow> ps ! j = f j" by (simp_all add: ps_def)
  have hc: "hc \<longleftrightarrow> \<not> (\<forall>j<?n. strict_eq (vs ! j) (ps ! j))"
  proof
    assume hc
    with vs(4) obtain j p where "j < ?n" "getMember rt state (?keys ! j) = Inr p" "\<not> strict_eq (vs ! j) p"
      by blast
    with f ps(2) show "\<not> (\<forall>j<?n. strict_eq (vs ! j) (ps ! j))" by auto
  next
    assume "\<not> (\<forall>j<?n. strict_eq (vs ! j) (ps ! j))"
    with f ps(2) show hc by auto
  qed
  have again: "fst (combination rt renv c result action ref') = Inr result" if "\<not> hc"
  proof -
    from that res have r: "result = state" by simp
    from st have "state \<noteq> VUndefined" by auto
    with r loop chk that show ?thesis unfolding run by (simp add: body_def)
  qed
  have slices: "\<forall>j<?n. getMember rt state (?keys ! j) = Inr (ps ! j) \<and>
        callReducer renv (lookup (finalReducers c) (?keys ! j)) (ps ! j) action = Inr (vs ! j)"
    using f ps(2) by simp
  have final: "if \<forall>j<?n. strict_eq (vs ! j) (ps ! j)
      then result = state \<and> fst (combination rt renv c result action ref') = Inr result
      else result = VObj fresh (zip ?keys vs)"
    using hc res vs(2) again by auto
  from ps(1) vs(1) slices final show ?thesis by blast
qed

theorem combination_result_witness:
  "combination demoRuntime demoRenv (combineReducers demoRenv demoRnd demoReducers) demoState
       nopAction 30
     = (Inr demoState, 31) \<and>
   fst (combination demoRuntime demoRenv (combineReducers demoRenv demoRnd demoReducers) demoState
       nopAction 31)
     = Inr demoState \<and>
   combination demoRuntime demoRenv (combineReducers demoRenv demoRnd demoReducers) demoState
       incAction 30
     = (Inr (VObj 30 [(''count'', VNum 2), (''flag'', VBool False)]), 31)"
proof -
  let ?c = "combineReducers demoRenv demoRnd demoReducers"
  have ok: "combination demoRuntime demoRenv ?c demoState nopAction 30 = (Inr demoState, 31)"
    by (simp add: combine_defs)
  have ok2: "combination demoRuntime demoRenv ?c demoState incAction 30
     = (Inr (VObj 30 [(''count'', VNum 2), (''flag'', VBool False)]), 31)"
    by (simp add: combine_defs)
  have keys: "finalReducerKeys ?c = [''count'', ''flag'']"
    and props: "getMember demoRuntime demoState ''count'' = Inr (VNum 1)"
      "getMember demoRuntime demoState ''flag'' = Inr (VBool False)"
    and calls: "callReducer demoRenv (lookup (finalReducers ?c) ''count'') (VNum 1) nopAction
        = Inr (VNum 1)"
      "callReducer demoRenv (lookup (finalReducers ?c) ''flag'') (VBool False) nopAction
        = Inr (VBool False)"
    by (simp_all add: combine_defs)
  have nu: "demoState \<noteq> VUndefined" by (simp add: demoState_def)
  then have st: "demoState = (if demoState = VUndefined then VObj 30 [] else demoState)"
    and nx: "(30::nat) = (if demoState = VUndefined then 30 + 1 else 30)"
    by simp_all
  from combination_result [where renv = demoRenv and rnd = demoRnd and reducers = demoReducers
      and ?state0.0 = demoState and state = demoState and fresh = 30 and action = nopAction
      and ref = 30 and rt = demoRuntime, OF refl st nx ok]
  obtain ps vs where
    sl: "\<forall>j<length (finalReducerKeys ?c).
        getMember demoRuntime demoState (finalReducerKeys ?c ! j) = Inr (ps ! j) \<and>
        callReducer demoRenv (lookup (finalReducers ?c) (finalReducerKeys ?c ! j)) (ps ! j) nopAction
          = Inr (vs ! j)"
    and fin: "if \<forall>j<length (finalReducerKeys ?c). strict_eq (vs ! j) (ps ! j)
      then demoState = demoState \<and>
        fst (combination demoRuntime demoRenv ?c demoState nopAction 31) = Inr demoState
      else demoState = VObj 30 (zip (finalReducerKeys ?c) vs)"
    by blast
  from sl [rule_format, of 0] keys props(1) have p0: "ps ! 0 = VNum 1" by simp
  from sl [rule_format, of 1] keys props(2) have p1: "ps ! 1 = VBool False" by simp
  from sl [rule_format, of 0] keys p0 calls(1) have v0: "vs ! 0 = VNum 1" by simp
  from sl [rule_format, of 1] keys p1 calls(2) have v1: "vs ! 1 = VBool False" by simp
  note p0 v0 p1 v1
  then have "\<forall>j<length (finalReducerKeys ?c). strict_eq (vs ! j) (ps ! j)"
    unfolding keys by (simp add: less_Suc_eq)
  with fin have "fst (combination demoRuntime demoRenv ?c demoState nopAction 31) = Inr demoState" by simp
  with ok ok2 show ?thesis by simp
qed

text \<open>
  C6. \<open>combineReducers\<close> always returns a combined reducer: the exception of the probes
  is caught and kept. Suppose that the probes reach the surviving key \<open>key\<close> (the
  reducers of the surviving keys before it have passed both probes) and that its reducer
  returns \<^verbatim>\<open>undefined\<close> when probed with \<^verbatim>\<open>undefined\<close> and the \<^verbatim>\<open>INIT\<close> action, or, having
  returned a value there, when probed with \<^verbatim>\<open>undefined\<close> and the action of its random
  type. Nothing is asked of the reducers after \<open>key\<close>, which are not probed. Then the
  exception kept is the sanity error of \<open>key\<close>, that of the first probe or that of the
  second, and every call of the combined reducer, whatever the platform, the state and
  the action, throws this very exception. The type of the second probe is never that
  of \<^verbatim>\<open>INIT\<close>.
\<close>

theorem sanity_error_is_deferred:
  assumes c: "c = combineReducers renv rnd reducers"
    and keys: "finalReducerKeys c = pre @ key # post"
    and pre: "\<forall>k\<in>set pre. probeReducer renv rnd (finalReducers c) k = Inr ()"
    and bad:
      "callReducer renv (lookup (finalReducers c) key) VUndefined initAction = Inr VUndefined \<or>
       (\<exists>v. callReducer renv (lookup (finalReducers c) key) VUndefined initAction = Inr v \<and>
            v \<noteq> VUndefined) \<and>
       callReducer renv (lookup (finalReducers c) key) VUndefined (probeAction (rnd key))
         = Inr VUndefined"
  shows "\<exists>e.
     (e = SanityInit key \<and>
        callReducer renv (lookup (finalReducers c) key) VUndefined initAction = Inr VUndefined \<or>
      e = SanityProbe key \<and>
        callReducer renv (lookup (finalReducers c) key) VUndefined initAction \<noteq> Inr VUndefined) \<and>
     sanityError c = Some e \<and>
     (\<forall>rt state action ref. fst (combination rt renv c state action ref) = Inl e) \<and>
     getProp (probeAction (rnd key)) ''type'' = Inr (VStr (probeType (rnd key))) \<and>
     probeType (rnd key) \<noteq> INIT"
proof -
  let ?first = "callReducer renv (lookup (finalReducers c) key) VUndefined initAction"
  define e where "e = (if ?first = Inr VUndefined then SanityInit key else SanityProbe key)"
  from bad have probe: "probeReducer renv rnd (finalReducers c) key = Inl e"
    by (auto simp: probeReducer_def Let_def typeof_undefined e_def)
  from sanityError_first_failure [OF c keys pre probe] have se: "sanityError c = Some e" .
  have "truthyError e" by (simp add: truthyError_def e_def)
  from combination_sanity [OF se this]
  have every: "\<forall>rt state action ref. fst (combination rt renv c state action ref) = Inl e"
    by simp
  have shape: "e = SanityInit key \<and> ?first = Inr VUndefined \<or>
      e = SanityProbe key \<and> ?first \<noteq> Inr VUndefined"
    by (simp add: e_def)
  from shape se every probeType_not_INIT [of "rnd key"] probeAction_type [of "rnd key"]
  show ?thesis by blast
qed

theorem sanity_error_is_deferred_witness:
  "finalReducerKeys (combineReducers demoRenv demoRnd brokenReducers)
     = [''count''] @ ''broken'' # [''thrower''] \<and>
   probeReducer demoRenv demoRnd (finalReducers (combineReducers demoRenv demoRnd brokenReducers))
       ''count'' = Inr () \<and>
   callReducer demoRenv
       (lookup (finalReducers (combineReducers demoRenv demoRnd brokenReducers)) ''broken'')
       VUndefined initAction = Inr VUndefined \<and>
   sanityError (combineReducers demoRenv demoRnd brokenReducers) = Some (SanityInit ''broken'') \<and>
   fst (combination demoRuntime demoRenv (combineReducers demoRenv demoRnd brokenReducers)
       demoState incAction 30) = Inl (SanityInit ''broken'') \<and>
   fst (combination demoRuntime demoRenv (combineReducers demoRenv demoRnd brokenReducers)
       VUndefined initAction 31) = Inl (SanityInit ''broken'') \<and>
   finalReducerKeys (combineReducers demoRenv demoRnd pickyReducers)
     = [''count''] @ ''picky'' # [''thrower''] \<and>
   probeReducer demoRenv demoRnd (finalReducers (combineReducers demoRenv demoRnd pickyReducers))
       ''count'' = Inr () \<and>
   callReducer demoRenv
       (lookup (finalReducers (combineReducers demoRenv demoRnd pickyReducers)) ''picky'')
       VUndefined initAction = Inr (VNum 0) \<and>
   callReducer demoRenv
       (lookup (finalReducers (combineReducers demoRenv demoRnd pickyReducers)) ''picky'')
       VUndefined (probeAction (demoRnd ''picky'')) = Inr VUndefined \<and>
   sanityError (combineReducers demoRenv demoRnd pickyReducers) = Some (SanityProbe ''picky'') \<and>
   fst (combination demoRuntime demoRenv (combineReducers demoRenv demoRnd pickyReducers)
       demoState incAction 30) = Inl (SanityProbe ''picky'') \<and>
   probeType (demoRnd ''picky'') = ''@@redux/PROBE_UNKNOWN_ACTION_8.2.m.v.y.r''"
proof -
  let ?b = "combineReducers demoRenv demoRnd brokenReducers"
  let ?p = "combineReducers demoRenv demoRnd pickyReducers"
  have kb: "finalReducerKeys ?b = [''count''] @ ''broken'' # [''thrower'']"
    and kp: "finalReducerKeys ?p = [''count''] @ ''picky'' # [''thrower'']"
    by (simp_all add: combine_defs)
  have cb: "probeReducer demoRenv demoRnd (finalReducers ?b) ''count'' = Inr ()"
    and cp: "probeReducer demoRenv demoRnd (finalReducers ?p) ''count'' = Inr ()"
    by (simp_all add: combine_defs)
  then have pb: "\<forall>k\<in>set [''count'']. probeReducer demoRenv demoRnd (finalReducers ?b) k = Inr ()"
    and pp: "\<forall>k\<in>set [''count'']. probeReducer demoRenv demoRnd (finalReducers ?p) k = Inr ()"
    by simp_all
  have ub: "callReducer demoRenv (lookup (finalReducers ?b) ''broken'') VUndefined initAction
      = Inr VUndefined"
    and up1: "callReducer demoRenv (lookup (finalReducers ?p) ''picky'') VUndefined initAction
      = Inr (VNum 0)"
    and up2: "callReducer demoRenv (lookup (finalReducers ?p) ''picky'') VUndefined
        (probeAction (demoRnd ''picky'')) = Inr VUndefined"
    and ty: "probeType (demoRnd ''picky'') = ''@@redux/PROBE_UNKNOWN_ACTION_8.2.m.v.y.r''"
    and sb: "sanityError ?b = Some (SanityInit ''broken'')"
    and sp: "sanityError ?p = Some (SanityProbe ''picky'')"
    by (simp_all add: combine_defs)
  from ub have badb:
    "callReducer demoRenv (lookup (finalReducers ?b) ''broken'') VUndefined initAction
         = Inr VUndefined \<or>
       (\<exists>v. callReducer demoRenv (lookup (finalReducers ?b) ''broken'') VUndefined initAction
           = Inr v \<and> v \<noteq> VUndefined) \<and>
       callReducer demoRenv (lookup (finalReducers ?b) ''broken'') VUndefined
           (probeAction (demoRnd ''broken'')) = Inr VUndefined"
    by simp
  from up1 up2 have badp:
    "callReducer demoRenv (lookup (finalReducers ?p) ''picky'') VUndefined initAction
         = Inr VUndefined \<or>
       (\<exists>v. callReducer demoRenv (lookup (finalReducers ?p) ''picky'') VUndefined initAction
           = Inr v \<and> v \<noteq> VUndefined) \<and>
       callReducer demoRenv (lookup (finalReducers ?p) ''picky'') VUndefined
           (probeAction (demoRnd ''picky'')) = Inr VUndefined"
    by simp
  from sanity_error_is_deferred [where renv = demoRenv and rnd = demoRnd
      and reducers = brokenReducers and key = "''broken''" and pre = "[''count'']"
      and post = "[''thrower'']", OF refl kb pb badb]
  obtain e where "sanityError ?b = Some e"
    and "\<forall>rt state action ref. fst (combination rt demoRenv ?b state action ref) = Inl e"
    by blast
  with sb have b: "fst (combination demoRuntime demoRenv ?b demoState incAction 30)
        = Inl (SanityInit ''broken'')"
      "fst (combination demoRuntime demoRenv ?b VUndefined initAction 31)
        = Inl (SanityInit ''broken'')"
    by simp_all
  from sanity_error_is_deferred [where renv = demoRenv and rnd = demoRnd
      and reducers = pickyReducers and key = "''picky''" and pre = "[''count'']"
      and post = "[''thrower'']", OF refl kp pp badp]
  obtain e' where "sanityError ?p = Some e'"
    and "\<forall>rt state action ref. fst (combination rt demoRenv ?p state action ref) = Inl e'"
    by blast
  with sp have p: "fst (combination demoRuntime demoRenv ?p demoState incAction 30)
        = Inl (SanityProbe ''picky'')"
    by simp
  from kb cb ub sb b kp cp up1 up2 sp p ty show ?thesis by blast
qed

end
